theory Spec2Isabelle
  imports Main "HOL-Library.Word" "HOL-Library.AList"
begin

section \<open>Scalar types and enums (types.hpp)\<close>

text \<open>
  \<open>Price\<close>, \<open>Quantity\<close>, \<open>OrderId\<close> and the timestamp are \<open>std::uint64_t\<close>, the
  per-level order count is \<open>std::uint32_t\<close>: all arithmetic on them wraps. A pointer
  \<open>Order*\<close> into the pool's contiguous storage is the slot index of the record
  (\<open>order - orders_.data()\<close>), \<open>nullptr\<close> is \<open>None\<close>.
\<close>

type_synonym price = "64 word"
type_synonym quantity = "64 word"
type_synonym order_id = "64 word"
type_synonym order_ptr = "nat option"

definition INVALID_PRICE :: price where
  "INVALID_PRICE = 0"

datatype side = Buy | Sell

datatype order_type = Limit | Market

datatype order_status = New | Active | PartiallyFilled | Filled | Cancelled

datatype error = PoolExhausted

section \<open>Order record and trade record (order.hpp)\<close>

record order =
  o_id :: order_id
  o_price :: price
  o_quantity :: quantity
  o_filled_quantity :: quantity
  o_side :: side
  o_type :: order_type
  o_status :: order_status
  o_prev :: order_ptr
  o_next :: order_ptr
  o_timestamp :: "64 word"

definition remaining :: "order \<Rightarrow> quantity" where
  "remaining ord = o_quantity ord - o_filled_quantity ord"

definition is_filled :: "order \<Rightarrow> bool" where
  "is_filled ord = (o_filled_quantity ord \<ge> o_quantity ord)"

definition reset :: "order \<Rightarrow> order" where
  "reset ord = ord\<lparr>o_id := 0, o_price := INVALID_PRICE, o_quantity := 0,
     o_filled_quantity := 0, o_side := Buy, o_type := Limit, o_status := New,
     o_prev := None, o_next := None, o_timestamp := 0\<rparr>"

definition default_order :: order where
  "default_order = \<lparr>o_id = 0, o_price = INVALID_PRICE, o_quantity = 0,
     o_filled_quantity = 0, o_side = Buy, o_type = Limit, o_status = New,
     o_prev = None, o_next = None, o_timestamp = 0\<rparr>"

record trade =
  t_buy_order_id :: order_id
  t_sell_order_id :: order_id
  t_price :: price
  t_quantity :: quantity
  t_timestamp :: "64 word"

section \<open>Order pool (order_pool.hpp)\<close>

text \<open>
  The pool owns the array of records and a stack of free slot indices. \<open>capacity_\<close> and
  \<open>free_count_\<close> index the two vectors and are natural numbers; \<open>size_\<close> is only
  counted up and down, as a 64-bit \<open>std::size_t\<close>.
\<close>

record order_pool =
  pool_orders :: "order list"
  pool_free_stack :: "nat list"
  pool_capacity :: nat
  pool_size :: "64 word"
  pool_free_count :: nat

definition order_pool_init :: "nat \<Rightarrow> order_pool" where
  "order_pool_init capacity =
     \<lparr>pool_orders = replicate capacity default_order,
      pool_free_stack = map (\<lambda>i. capacity - 1 - i) [0..<capacity],
      pool_capacity = capacity, pool_size = 0, pool_free_count = capacity\<rparr>"

definition allocate :: "order_pool \<Rightarrow> error + (nat \<times> order_pool)" where
  "allocate pl =
     (if pool_free_count pl = 0 then Inl PoolExhausted
      else
        let fc = pool_free_count pl - 1;
            idx = pool_free_stack pl ! fc
        in Inr (idx, pl\<lparr>pool_free_count := fc,
                         pool_orders := (pool_orders pl)[idx := reset (pool_orders pl ! idx)],
                         pool_size := pool_size pl + 1\<rparr>))"

definition deallocate :: "nat \<Rightarrow> order_pool \<Rightarrow> order_pool" where
  "deallocate idx pl =
     pl\<lparr>pool_free_stack := (pool_free_stack pl)[pool_free_count pl := idx],
        pool_free_count := pool_free_count pl + 1,
        pool_size := pool_size pl - 1\<rparr>"

section \<open>Price level (price_level.hpp)\<close>

text \<open>
  A level holds the head and tail of an intrusive doubly-linked list whose links live in
  the order records themselves, so \<open>add_order\<close> and \<open>remove_order\<close> of a level update
  both the level and the pool's storage.
\<close>

record price_level =
  l_price :: price
  l_total_quantity :: quantity
  l_order_count :: "32 word"
  l_head :: order_ptr
  l_tail :: order_ptr

definition price_level_init :: "price \<Rightarrow> price_level" where
  "price_level_init p =
     \<lparr>l_price = p, l_total_quantity = 0, l_order_count = 0, l_head = None, l_tail = None\<rparr>"

definition level_empty :: "price_level \<Rightarrow> bool" where
  "level_empty lv = (l_head lv = None)"

definition level_front :: "price_level \<Rightarrow> order_ptr" where
  "level_front lv = l_head lv"

definition level_add_order :: "nat \<Rightarrow> price_level \<times> order list \<Rightarrow> price_level \<times> order list" where
  "level_add_order p lh =
     (let lv = fst lh; h = snd lh;
          h1 = h[p := (h ! p)\<lparr>o_prev := l_tail lv\<rparr>];
          h2 = h1[p := (h1 ! p)\<lparr>o_next := None\<rparr>];
          h3 = (case l_tail lv of Some t \<Rightarrow> h2[t := (h2 ! t)\<lparr>o_next := Some p\<rparr>] | None \<Rightarrow> h2);
          lv1 = (case l_tail lv of Some t \<Rightarrow> lv | None \<Rightarrow> lv\<lparr>l_head := Some p\<rparr>);
          lv2 = lv1\<lparr>l_tail := Some p\<rparr>;
          lv3 = lv2\<lparr>l_total_quantity := l_total_quantity lv2 + remaining (h3 ! p)\<rparr>;
          lv4 = lv3\<lparr>l_order_count := l_order_count lv3 + 1\<rparr>
      in (lv4, h3))"

definition level_remove_order :: "nat \<Rightarrow> price_level \<times> order list \<Rightarrow> price_level \<times> order list" where
  "level_remove_order p lh =
     (let lv = fst lh; h = snd lh;
          h1 = (case o_prev (h ! p) of
                  Some q \<Rightarrow> h[q := (h ! q)\<lparr>o_next := o_next (h ! p)\<rparr>] | None \<Rightarrow> h);
          lv1 = (case o_prev (h ! p) of
                  Some q \<Rightarrow> lv | None \<Rightarrow> lv\<lparr>l_head := o_next (h ! p)\<rparr>);
          h2 = (case o_next (h1 ! p) of
                  Some n \<Rightarrow> h1[n := (h1 ! n)\<lparr>o_prev := o_prev (h1 ! p)\<rparr>] | None \<Rightarrow> h1);
          lv2 = (case o_next (h1 ! p) of
                  Some n \<Rightarrow> lv1 | None \<Rightarrow> lv1\<lparr>l_tail := o_prev (h1 ! p)\<rparr>);
          lv3 = lv2\<lparr>l_total_quantity := l_total_quantity lv2 - remaining (h2 ! p)\<rparr>;
          lv4 = lv3\<lparr>l_order_count := l_order_count lv3 - 1\<rparr>;
          h3 = h2[p := (h2 ! p)\<lparr>o_prev := None, o_next := None\<rparr>]
      in (lv4, h3))"

section \<open>Order book (order_book.hpp, order_book.cpp)\<close>

text \<open>
  \<open>std::map<Price, PriceLevel>\<close> is a list of (price, level) pairs kept in ascending
  key order with one entry per key; \<open>std::unordered_map<OrderId, Order*>\<close> is an
  association list from id to pool slot. The trade callback is an external sink that
  cannot reach the private state of the book and is not part of the model.
\<close>

record order_result =
  r_order_id :: order_id
  r_status :: order_status
  r_filled_quantity :: quantity
  r_remaining_quantity :: quantity
  r_trades :: "trade list"

definition order_result_init :: order_result where
  "order_result_init =
     \<lparr>r_order_id = 0, r_status = New, r_filled_quantity = 0, r_remaining_quantity = 0,
      r_trades = []\<rparr>"

record book =
  bids :: "(price \<times> price_level) list"
  asks :: "(price \<times> price_level) list"
  orders :: "(order_id \<times> nat) list"
  pool :: order_pool
  next_id :: order_id
  timestamp_counter :: "64 word"
  trade_count :: "64 word"
  total_volume :: "64 word"

definition order_book_init :: "nat \<Rightarrow> book" where
  "order_book_init cap =
     \<lparr>bids = [], asks = [], orders = [], pool = order_pool_init cap,
      next_id = 0, timestamp_counter = 0, trade_count = 0, total_volume = 0\<rparr>"

definition order_at :: "book \<Rightarrow> nat \<Rightarrow> order" where
  "order_at s p = pool_orders (pool s) ! p"

definition set_heap :: "order list \<Rightarrow> book \<Rightarrow> book" where
  "set_heap h s = s\<lparr>pool := (pool s)\<lparr>pool_orders := h\<rparr>\<rparr>"

definition upd_order :: "nat \<Rightarrow> (order \<Rightarrow> order) \<Rightarrow> book \<Rightarrow> book" where
  "upd_order p f s = set_heap ((pool_orders (pool s))[p := f (order_at s p)]) s"

definition levels :: "side \<Rightarrow> book \<Rightarrow> (price \<times> price_level) list" where
  "levels sd s = (if sd = Buy then bids s else asks s)"

definition set_levels :: "side \<Rightarrow> (price \<times> price_level) list \<Rightarrow> book \<Rightarrow> book" where
  "set_levels sd ls s = (if sd = Buy then s\<lparr>bids := ls\<rparr> else s\<lparr>asks := ls\<rparr>)"

text \<open>\<open>try_emplace\<close> of the ordered map: a new entry goes to its place in key order, an
  existing key keeps its entry.\<close>

fun try_emplace :: "price \<Rightarrow> price_level \<Rightarrow> (price \<times> price_level) list \<Rightarrow> (price \<times> price_level) list" where
  "try_emplace k v [] = [(k, v)]"
| "try_emplace k v (e # es) =
     (if k < fst e then (k, v) # e # es
      else if k = fst e then e # es
      else e # try_emplace k v es)"

text \<open>Erasing through an iterator removes the entry at the iterator's position.\<close>

definition erase_at :: "nat \<Rightarrow> 'a list \<Rightarrow> 'a list" where
  "erase_at i xs = take i xs @ drop (Suc i) xs"

text \<open>The level a matching loop holds by reference (\<open>it->second\<close>): the entry at a position
  of one side's map.\<close>

definition level_at :: "side \<Rightarrow> nat \<Rightarrow> book \<Rightarrow> price_level" where
  "level_at sd i s = snd (levels sd s ! i)"

definition level_remove_at :: "side \<Rightarrow> nat \<Rightarrow> nat \<Rightarrow> book \<Rightarrow> book" where
  "level_remove_at sd i p s =
     (let e = levels sd s ! i;
          lh = level_remove_order p (snd e, pool_orders (pool s))
      in set_heap (snd lh) (set_levels sd ((levels sd s)[i := (fst e, fst lh)]) s))"

definition execute_trade :: "nat \<Rightarrow> nat \<Rightarrow> quantity \<Rightarrow> book \<times> order_result \<Rightarrow> book \<times> order_result" where
  "execute_trade a p qty sr =
     (let s = fst sr; r = snd sr;
          s1 = upd_order a (\<lambda>ord. ord\<lparr>o_filled_quantity := o_filled_quantity ord + qty\<rparr>) s;
          s2 = upd_order p (\<lambda>ord. ord\<lparr>o_filled_quantity := o_filled_quantity ord + qty\<rparr>) s1;
          passive = order_at s2 p;
          aggressive = order_at s2 a;
          lvs = levels (o_side passive) s2;
          s3 = (case map_of lvs (o_price passive) of
                  None \<Rightarrow> s2
                | Some lv \<Rightarrow>
                    set_levels (o_side passive)
                      (AList.update (o_price passive)
                         (lv\<lparr>l_total_quantity := l_total_quantity lv - qty\<rparr>) lvs) s2);
          tr = \<lparr>t_buy_order_id = (if o_side aggressive = Buy then o_id aggressive else o_id passive),
                t_sell_order_id = (if o_side aggressive = Buy then o_id passive else o_id aggressive),
                t_price = o_price passive,
                t_quantity = qty,
                t_timestamp = timestamp_counter s3\<rparr>;
          s4 = s3\<lparr>trade_count := trade_count s3 + 1\<rparr>;
          s5 = s4\<lparr>total_volume := total_volume s4 + qty\<rparr>
      in (s5, r\<lparr>r_trades := r_trades r @ [tr]\<rparr>))"

text \<open>What the matching loops do with a passive order that a trade has filled.\<close>

definition retire_passive :: "side \<Rightarrow> nat \<Rightarrow> nat \<Rightarrow> book \<Rightarrow> book" where
  "retire_passive sd i p s =
     (let s1 = level_remove_at sd i p s;
          s2 = s1\<lparr>orders := AList.delete (o_id (order_at s1 p)) (orders s1)\<rparr>;
          s3 = upd_order p (\<lambda>ord. ord\<lparr>o_status := Filled\<rparr>) s2
      in s3\<lparr>pool := deallocate p (pool s3)\<rparr>)"

text \<open>The inner loop of \<open>match_against_asks\<close> and \<open>match_against_bids\<close> (the two copies
  differ only in the level they hold): walk the level's queue from \<open>passive\<close> while the
  aggressive order has quantity left. \<open>match_step\<close> is the loop body after
  \<open>next_passive\<close> has been read.\<close>

definition match_step :: "side \<Rightarrow> nat \<Rightarrow> nat \<Rightarrow> nat \<Rightarrow> book \<times> order_result \<Rightarrow> book \<times> order_result" where
  "match_step sd i a p sr =
     (let s = fst sr;
          trade_qty = min (remaining (order_at s a)) (remaining (order_at s p));
          sr1 = execute_trade a p trade_qty sr;
          s1 = fst sr1;
          s2 = (if is_filled (order_at s1 p) then retire_passive sd i p s1 else s1)
      in (s2, snd sr1))"

partial_function (option) match_level ::
  "side \<Rightarrow> nat \<Rightarrow> nat \<Rightarrow> order_ptr \<Rightarrow> book \<times> order_result \<Rightarrow> (book \<times> order_result) option" where
  "match_level sd i a passive sr =
     (case passive of
        None \<Rightarrow> Some sr
      | Some p \<Rightarrow>
          if 0 < remaining (order_at (fst sr) a) then
            (let next_passive = o_next (order_at (fst sr) p)
             in match_level sd i a next_passive (match_step sd i a p sr))
          else Some sr)"

declare match_level.simps [code]

partial_function (option) match_against_asks ::
  "nat \<Rightarrow> nat \<Rightarrow> book \<times> order_result \<Rightarrow> (book \<times> order_result) option" where
  "match_against_asks it a sr =
     (if it < length (asks (fst sr)) \<and> 0 < remaining (order_at (fst sr) a) then
        (if o_type (order_at (fst sr) a) = Limit
            \<and> fst (asks (fst sr) ! it) > o_price (order_at (fst sr) a)
         then Some sr
         else
           case match_level Sell it a (level_front (level_at Sell it (fst sr))) sr of
             None \<Rightarrow> None
           | Some sr1 \<Rightarrow>
               if level_empty (level_at Sell it (fst sr1))
               then match_against_asks it a
                      ((fst sr1)\<lparr>asks := erase_at it (asks (fst sr1))\<rparr>, snd sr1)
               else match_against_asks (it + 1) a sr1)
      else Some sr)"

declare match_against_asks.simps [code]

text \<open>The reverse iterator over the bids counts positions from the greatest key:
  position \<open>rit\<close> is the entry at index \<open>length - 1 - rit\<close>.\<close>

partial_function (option) match_against_bids ::
  "nat \<Rightarrow> nat \<Rightarrow> book \<times> order_result \<Rightarrow> (book \<times> order_result) option" where
  "match_against_bids rit a sr =
     (if rit < length (bids (fst sr)) \<and> 0 < remaining (order_at (fst sr) a) then
        (let i = length (bids (fst sr)) - 1 - rit in
         if o_type (order_at (fst sr) a) = Limit
            \<and> fst (bids (fst sr) ! i) < o_price (order_at (fst sr) a)
         then Some sr
         else
           case match_level Buy i a (level_front (level_at Buy i (fst sr))) sr of
             None \<Rightarrow> None
           | Some sr1 \<Rightarrow>
               if level_empty (level_at Buy i (fst sr1))
               then match_against_bids 0 a
                      ((fst sr1)\<lparr>bids := erase_at i (bids (fst sr1))\<rparr>, snd sr1)
               else match_against_bids (rit + 1) a sr1)
      else Some sr)"

declare match_against_bids.simps [code]

definition match_order :: "nat \<Rightarrow> book \<times> order_result \<Rightarrow> (book \<times> order_result) option" where
  "match_order a sr =
     (if o_side (order_at (fst sr) a) = Buy then match_against_asks 0 a sr
      else match_against_bids 0 a sr)"

definition insert_into_book :: "nat \<Rightarrow> book \<Rightarrow> book" where
  "insert_into_book a s =
     (let ord = order_at s a;
          lvs = try_emplace (o_price ord) (price_level_init (o_price ord)) (levels (o_side ord) s);
          lh = level_add_order a (the (map_of lvs (o_price ord)), pool_orders (pool s))
      in set_heap (snd lh)
           (set_levels (o_side ord) (AList.update (o_price ord) (fst lh) lvs) s))"

text \<open>
  \<open>add_order\<close> throws when the pool has no free slot; the exception leaves the function
  before anything else runs. The model returns the outcome together with the book the
  caller is left with; \<open>None\<close> stands for a matching loop that does not return.
  The body is written in its three phases: \<open>begin_order\<close> fills in the acquired record
  and the result's id (lines 15 to 24), \<open>match_order\<close> matches, and \<open>finish_order\<close>
  is the final three-way branch (lines 29 to 53), whose middle branch rests the order
  (\<open>rest_order\<close>).
\<close>

definition begin_order ::
  "nat \<Rightarrow> side \<Rightarrow> order_type \<Rightarrow> price \<Rightarrow> quantity \<Rightarrow> book \<Rightarrow> book \<times> order_result" where
  "begin_order a sd ty pr qty s1 =
     (let s2 = s1\<lparr>next_id := next_id s1 + 1\<rparr>;
          s3 = upd_order a (\<lambda>ord. ord\<lparr>o_id := next_id s2\<rparr>) s2;
          s4 = upd_order a (\<lambda>ord. ord\<lparr>o_side := sd\<rparr>) s3;
          s5 = upd_order a (\<lambda>ord. ord\<lparr>o_type := ty\<rparr>) s4;
          s6 = upd_order a (\<lambda>ord. ord\<lparr>o_price := pr\<rparr>) s5;
          s7 = upd_order a (\<lambda>ord. ord\<lparr>o_quantity := qty\<rparr>) s6;
          s8 = upd_order a (\<lambda>ord. ord\<lparr>o_filled_quantity := 0\<rparr>) s7;
          s9 = upd_order a (\<lambda>ord. ord\<lparr>o_status := Active\<rparr>) s8;
          s10 = s9\<lparr>timestamp_counter := timestamp_counter s9 + 1\<rparr>;
          s11 = upd_order a (\<lambda>ord. ord\<lparr>o_timestamp := timestamp_counter s10\<rparr>) s10
      in (s11, order_result_init\<lparr>r_order_id := o_id (order_at s11 a)\<rparr>))"

definition rest_order :: "nat \<Rightarrow> book \<Rightarrow> book" where
  "rest_order a sm =
     (let t1 = (if 0 < o_filled_quantity (order_at sm a)
                then upd_order a (\<lambda>ord. ord\<lparr>o_status := PartiallyFilled\<rparr>) sm
                else sm);
          t2 = insert_into_book a t1
      in t2\<lparr>orders := AList.update (o_id (order_at t2 a)) a (orders t2)\<rparr>)"

definition finish_order :: "order_type \<Rightarrow> nat \<Rightarrow> book \<times> order_result \<Rightarrow> order_result \<times> book" where
  "finish_order ty a smr =
     (let sm = fst smr; rm = snd smr in
      if is_filled (order_at sm a) then
        (let t1 = upd_order a (\<lambda>ord. ord\<lparr>o_status := Filled\<rparr>) sm
         in (rm\<lparr>r_status := Filled,
                r_filled_quantity := o_filled_quantity (order_at t1 a),
                r_remaining_quantity := 0\<rparr>,
             t1\<lparr>pool := deallocate a (pool t1)\<rparr>))
      else if ty = Limit then
        (let t3 = rest_order a sm
         in (rm\<lparr>r_status := o_status (order_at t3 a),
                r_filled_quantity := o_filled_quantity (order_at t3 a),
                r_remaining_quantity := remaining (order_at t3 a)\<rparr>,
             t3))
      else
        (rm\<lparr>r_status := Cancelled,
            r_filled_quantity := o_filled_quantity (order_at sm a),
            r_remaining_quantity := remaining (order_at sm a)\<rparr>,
         sm\<lparr>pool := deallocate a (pool sm)\<rparr>))"

definition add_order ::
  "side \<Rightarrow> order_type \<Rightarrow> price \<Rightarrow> quantity \<Rightarrow> book \<Rightarrow> ((error + order_result) \<times> book) option" where
  "add_order sd ty pr qty s =
     (case allocate (pool s) of
        Inl e \<Rightarrow> Some (Inl e, s)
      | Inr (a, pl) \<Rightarrow>
          (case match_order a (begin_order a sd ty pr qty (s\<lparr>pool := pl\<rparr>)) of
             None \<Rightarrow> None
           | Some smr \<Rightarrow>
               Some (Inr (fst (finish_order ty a smr)), snd (finish_order ty a smr))))"

definition cancel_order :: "order_id \<Rightarrow> book \<Rightarrow> bool \<times> book" where
  "cancel_order oid s =
     (case map_of (orders s) oid of
        None \<Rightarrow> (False, s)
      | Some p \<Rightarrow>
          let pr = o_price (order_at s p);
              sd = o_side (order_at s p);
              lvs = levels sd s;
              s1 = (case map_of lvs pr of
                      None \<Rightarrow> s
                    | Some lv \<Rightarrow>
                        let lh = level_remove_order p (lv, pool_orders (pool s));
                            lvs1 = AList.update pr (fst lh) lvs;
                            lvs2 = (if level_empty (fst lh) then AList.delete pr lvs1 else lvs1)
                        in set_heap (snd lh) (set_levels sd lvs2 s));
              s2 = s1\<lparr>orders := AList.delete oid (orders s1)\<rparr>;
              s3 = upd_order p (\<lambda>ord. ord\<lparr>o_status := Cancelled\<rparr>) s2
          in (True, s3\<lparr>pool := deallocate p (pool s3)\<rparr>))"

definition modify_order :: "order_id \<Rightarrow> quantity \<Rightarrow> book \<Rightarrow> ((error + bool) \<times> book) option" where
  "modify_order oid new_quantity s =
     (case map_of (orders s) oid of
        None \<Rightarrow> Some (Inr False, s)
      | Some p \<Rightarrow>
          if new_quantity \<le> o_filled_quantity (order_at s p) then
            (let cs = cancel_order oid s in Some (Inr (fst cs), snd cs))
          else if new_quantity < o_quantity (order_at s p) then
            (let old_remaining = remaining (order_at s p);
                 s1 = upd_order p (\<lambda>ord. ord\<lparr>o_quantity := new_quantity\<rparr>) s;
                 new_remaining = remaining (order_at s1 p);
                 sd = o_side (order_at s1 p);
                 pr = o_price (order_at s1 p);
                 lvs = levels sd s1;
                 s2 = (case map_of lvs pr of
                         None \<Rightarrow> s1
                       | Some lv \<Rightarrow>
                           set_levels sd
                             (AList.update pr
                                (lv\<lparr>l_total_quantity :=
                                      l_total_quantity lv - (old_remaining - new_remaining)\<rparr>) lvs) s1)
             in Some (Inr True, s2))
          else if new_quantity > o_quantity (order_at s p) then
            (let sd = o_side (order_at s p);
                 pr = o_price (order_at s p);
                 cs = cancel_order oid s
             in case add_order sd Limit pr new_quantity (snd cs) of
                  None \<Rightarrow> None
                | Some (Inl e, s1) \<Rightarrow> Some (Inl e, s1)
                | Some (Inr r, s1) \<Rightarrow> Some (Inr True, s1))
          else Some (Inr True, s))"

subsection \<open>Market data queries\<close>

definition best_bid :: "book \<Rightarrow> price" where
  "best_bid s = (if bids s = [] then INVALID_PRICE else fst (last (bids s)))"

definition best_ask :: "book \<Rightarrow> price" where
  "best_ask s = (if asks s = [] then INVALID_PRICE else fst (hd (asks s)))"

definition volume_at_price :: "book \<Rightarrow> side \<Rightarrow> price \<Rightarrow> quantity" where
  "volume_at_price s sd pr =
     (case map_of (levels sd s) pr of None \<Rightarrow> 0 | Some lv \<Rightarrow> l_total_quantity lv)"

definition order_count_at_price :: "book \<Rightarrow> side \<Rightarrow> price \<Rightarrow> 32 word" where
  "order_count_at_price s sd pr =
     (case map_of (levels sd s) pr of None \<Rightarrow> 0 | Some lv \<Rightarrow> l_order_count lv)"

definition total_orders :: "book \<Rightarrow> nat" where
  "total_orders s = length (orders s)"

definition bid_levels :: "book \<Rightarrow> nat" where
  "bid_levels s = length (bids s)"

definition ask_levels :: "book \<Rightarrow> nat" where
  "ask_levels s = length (asks s)"

section \<open>The queue of a level and the invariant of the book\<close>

text \<open>
  The queue of a level is what following the \<open>next\<close> links from its head visits. The
  walk is bounded by the number of records in the pool, so it is defined on every heap.
\<close>

definition heap :: "book \<Rightarrow> order list" where
  "heap s = pool_orders (pool s)"

fun walk :: "nat \<Rightarrow> order list \<Rightarrow> order_ptr \<Rightarrow> nat list" where
  "walk 0 h p = []"
| "walk (Suc n) h None = []"
| "walk (Suc n) h (Some i) = i # walk n h (o_next (h ! i))"

definition queue_of :: "order list \<Rightarrow> price_level \<Rightarrow> nat list" where
  "queue_of h lv = walk (length h) h (l_head lv)"

text \<open>\<open>dseg h prv frs q lst nxt\<close>: the records \<open>q\<close> form a doubly-linked segment that is
  entered through \<open>frs\<close> from \<open>prv\<close> and left through \<open>nxt\<close> from \<open>lst\<close>.\<close>

fun dseg :: "order list \<Rightarrow> order_ptr \<Rightarrow> order_ptr \<Rightarrow> nat list \<Rightarrow> order_ptr \<Rightarrow> order_ptr \<Rightarrow> bool" where
  "dseg h prv frs [] lst nxt = (frs = nxt \<and> lst = prv)"
| "dseg h prv frs (i # is) lst nxt =
     (frs = Some i \<and> i < length h \<and> o_prev (h ! i) = prv
      \<and> dseg h (Some i) (o_next (h ! i)) is lst nxt)"

definition valid_queue :: "order list \<Rightarrow> price_level \<Rightarrow> nat list \<Rightarrow> bool" where
  "valid_queue h lv q = (dseg h None (l_head lv) q (l_tail lv) None \<and> distinct q)"

definition level_ok :: "order list \<Rightarrow> side \<Rightarrow> price \<times> price_level \<Rightarrow> bool" where
  "level_ok h sd e =
     (let q = queue_of h (snd e) in
        valid_queue h (snd e) q
        \<and> l_order_count (snd e) = of_nat (length q)
        \<and> l_total_quantity (snd e) = sum_list (map (\<lambda>p. remaining (h ! p)) q)
        \<and> (\<forall>p\<in>set q. o_side (h ! p) = sd \<and> o_price (h ! p) = fst e))"

definition queues :: "side \<Rightarrow> book \<Rightarrow> nat list list" where
  "queues sd s = map (\<lambda>e. queue_of (heap s) (snd e)) (levels sd s)"

definition queued :: "book \<Rightarrow> nat list" where
  "queued s = concat (queues Buy s) @ concat (queues Sell s)"

definition free_slots :: "book \<Rightarrow> nat list" where
  "free_slots s = take (pool_free_count (pool s)) (pool_free_stack (pool s))"

definition core_inv :: "book \<Rightarrow> bool" where
  "core_inv s =
     (length (heap s) = pool_capacity (pool s)
      \<and> length (pool_free_stack (pool s)) = pool_capacity (pool s)
      \<and> pool_free_count (pool s) \<le> pool_capacity (pool s)
      \<and> sorted_wrt (<) (map fst (bids s)) \<and> sorted_wrt (<) (map fst (asks s))
      \<and> list_all (level_ok (heap s) Buy) (bids s)
      \<and> list_all (level_ok (heap s) Sell) (asks s)
      \<and> distinct (map fst (orders s))
      \<and> list_all (\<lambda>e. snd e \<in> set (queued s) \<and> o_id (heap s ! snd e) = fst e) (orders s)
      \<and> distinct (free_slots s)
      \<and> list_all (\<lambda>i. i < pool_capacity (pool s) \<and> i \<notin> set (queued s)) (free_slots s))"

definition nonempty_levels :: "book \<Rightarrow> bool" where
  "nonempty_levels s =
     (list_all (\<lambda>e. \<not> level_empty (snd e)) (bids s)
      \<and> list_all (\<lambda>e. \<not> level_empty (snd e)) (asks s))"

definition book_inv :: "book \<Rightarrow> bool" where
  "book_inv s = (core_inv s \<and> nonempty_levels s)"

text \<open>The fields of a record other than its two links.\<close>

definition data :: "order \<Rightarrow> order" where
  "data ord = ord\<lparr>o_prev := None, o_next := None\<rparr>"

definition lv_inv :: "order list \<Rightarrow> side \<Rightarrow> (price \<times> price_level) list \<Rightarrow> bool" where
  "lv_inv h sd lvs = (sorted_wrt (<) (map fst lvs) \<and> list_all (level_ok h sd) lvs)"

definition idx_ok :: "order list \<Rightarrow> (order_id \<times> nat) list \<Rightarrow> nat set \<Rightarrow> bool" where
  "idx_ok h os Q =
     (distinct (map fst os) \<and> (\<forall>e\<in>set os. snd e \<in> Q \<and> o_id (h ! snd e) = fst e))"

definition pool_ok :: "nat \<Rightarrow> order_pool \<Rightarrow> nat set \<Rightarrow> bool" where
  "pool_ok n pl Q =
     (n = pool_capacity pl \<and> length (pool_free_stack pl) = pool_capacity pl
      \<and> pool_free_count pl \<le> pool_capacity pl
      \<and> distinct (take (pool_free_count pl) (pool_free_stack pl))
      \<and> (\<forall>i\<in>set (take (pool_free_count pl) (pool_free_stack pl)). i < pool_capacity pl \<and> i \<notin> Q))"

definition set_level :: "price \<Rightarrow> price_level \<Rightarrow> (price \<times> price_level) list \<Rightarrow> (price \<times> price_level) list" where
  "set_level k lv lvs = map (\<lambda>x. if fst x = k then (k, lv) else x) lvs"

definition side_slots :: "order list \<Rightarrow> (price \<times> price_level) list \<Rightarrow> nat set" where
  "side_slots h lvs = (\<Union>e\<in>set lvs. set (queue_of h (snd e)))"

definition qset :: "book \<Rightarrow> nat set" where
  "qset s = side_slots (heap s) (levels Buy s) \<union> side_slots (heap s) (levels Sell s)"

definition opp :: "side \<Rightarrow> side" where
  "opp sd = (if sd = Buy then Sell else Buy)"

definition LV :: "book \<Rightarrow> bool" where
  "LV s = (\<forall>sd. lv_inv (heap s) sd (levels sd s))"

definition cinv :: "nat set \<Rightarrow> book \<Rightarrow> bool" where
  "cinv X s = (LV s \<and> idx_ok (heap s) (orders s) (qset s)
               \<and> pool_ok (length (heap s)) (pool s) (X \<union> qset s)
               \<and> X \<inter> qset s = {} \<and> (\<forall>x\<in>X. x < length (heap s)))"

definition others_nonempty :: "side \<Rightarrow> nat \<Rightarrow> book \<Rightarrow> bool" where
  "others_nonempty sd i s =
     (\<forall>sd' j. j < length (levels sd' s) \<longrightarrow> (sd', j) \<noteq> (sd, i)
        \<longrightarrow> \<not> level_empty (snd (levels sd' s ! j)))"

definition match_inv :: "side \<Rightarrow> nat \<Rightarrow> nat \<Rightarrow> book \<Rightarrow> bool" where
  "match_inv sd i a s = (cinv {a} s \<and> i < length (levels sd s) \<and> others_nonempty sd i s)"

definition queue_at :: "side \<Rightarrow> nat \<Rightarrow> book \<Rightarrow> nat list" where
  "queue_at sd i s = queue_of (heap s) (snd (levels sd s ! i))"

definition asks_stop :: "nat \<Rightarrow> nat \<Rightarrow> book \<times> order_result \<Rightarrow> bool" where
  "asks_stop it a sr =
     (o_type (heap (fst sr) ! a) = Limit
      \<and> fst (asks (fst sr) ! it) > o_price (heap (fst sr) ! a))"

definition asks_next :: "nat \<Rightarrow> book \<times> order_result \<Rightarrow> nat \<times> book \<times> order_result" where
  "asks_next it sr1 =
     (if level_empty (level_at Sell it (fst sr1))
      then (it, ((fst sr1)\<lparr>asks := erase_at it (asks (fst sr1))\<rparr>, snd sr1))
      else (it + 1, sr1))"

definition bids_stop :: "nat \<Rightarrow> nat \<Rightarrow> book \<times> order_result \<Rightarrow> bool" where
  "bids_stop rit a sr =
     (o_type (heap (fst sr) ! a) = Limit
      \<and> fst (bids (fst sr) ! (length (bids (fst sr)) - 1 - rit)) < o_price (heap (fst sr) ! a))"

definition bids_next :: "nat \<Rightarrow> nat \<Rightarrow> book \<times> order_result \<Rightarrow> nat \<times> book \<times> order_result" where
  "bids_next rit i sr1 =
     (if level_empty (level_at Buy i (fst sr1))
      then (0, ((fst sr1)\<lparr>bids := erase_at i (bids (fst sr1))\<rparr>, snd sr1))
      else (rit + 1, sr1))"

text \<open>What matching never changes: the two counters that number orders, and every field
  of every record except the filled quantity, the status and the links.\<close>

definition mframe :: "book \<Rightarrow> book \<Rightarrow> bool" where
  "mframe s s' =
     (next_id s' = next_id s \<and> timestamp_counter s' = timestamp_counter s
      \<and> length (heap s') = length (heap s)
      \<and> (\<forall>j. o_id (heap s' ! j) = o_id (heap s ! j) \<and> o_price (heap s' ! j) = o_price (heap s ! j)
              \<and> o_side (heap s' ! j) = o_side (heap s ! j) \<and> o_type (heap s' ! j) = o_type (heap s ! j)
              \<and> o_quantity (heap s' ! j) = o_quantity (heap s ! j)
              \<and> o_timestamp (heap s' ! j) = o_timestamp (heap s ! j)))"

text \<open>The slot the next \<open>allocate\<close> hands out.\<close>

definition next_slot :: "book \<Rightarrow> nat" where
  "next_slot s = pool_free_stack (pool s) ! (pool_free_count (pool s) - 1)"

text \<open>Taking a resting order out of the book: unlink it from its level, drop its index
  entry, mark it and give its slot back. The matching loops do this with status
  \<open>Filled\<close>, \<open>cancel_order\<close> with \<open>Cancelled\<close>.\<close>

definition release_order :: "order_status \<Rightarrow> side \<Rightarrow> nat \<Rightarrow> nat \<Rightarrow> book \<Rightarrow> book" where
  "release_order st sd i p s =
     (let s1 = level_remove_at sd i p s;
          s2 = s1\<lparr>orders := AList.delete (o_id (order_at s1 p)) (orders s1)\<rparr>;
          s3 = upd_order p (\<lambda>ord. ord\<lparr>o_status := st\<rparr>) s2
      in s3\<lparr>pool := deallocate p (pool s3)\<rparr>)"

text \<open>The position of the level the outer loops match against while the aggressive order
  has quantity left: the first ask, the last bid.\<close>

definition best_pos :: "side \<Rightarrow> nat \<Rightarrow> book \<Rightarrow> bool" where
  "best_pos sd i s = (if sd = Sell then i = 0 else Suc i = length (levels sd s))"



text \<open>A limit order at price \<open>pr\<close> crosses when the best price of the opposite side is
  at least as good as \<open>pr\<close>: the test the outer matching loops make before they enter a
  level.\<close>

definition crosses :: "side \<Rightarrow> price \<Rightarrow> book \<Rightarrow> bool" where
  "crosses sd pr s =
     (if sd = Buy then asks s \<noteq> [] \<and> fst (hd (asks s)) \<le> pr
      else bids s \<noteq> [] \<and> pr \<le> fst (last (bids s)))"


text \<open>The id a trade records for the resting side, for an aggressive order of side \<open>sd\<close>,
  and the id it records for the aggressive side.\<close>

definition passive_id :: "side \<Rightarrow> trade \<Rightarrow> order_id" where
  "passive_id sd tr = (if sd = Buy then t_sell_order_id tr else t_buy_order_id tr)"

definition aggressive_id :: "side \<Rightarrow> trade \<Rightarrow> order_id" where
  "aggressive_id sd tr = (if sd = Buy then t_buy_order_id tr else t_sell_order_id tr)"

section \<open>Example books\<close>

text \<open>A book of capacity 2 after \<open>add_order(Sell, Limit, 10000, 5)\<close> and
  \<open>add_order(Buy, Limit, 9900, 7)\<close>: both slots are in use.\<close>

definition full_book :: book where
  "full_book =
     \<lparr>bids = [(9900, \<lparr>l_price = 9900, l_total_quantity = 7, l_order_count = 1,
                       l_head = Some 1, l_tail = Some 1\<rparr>)],
      asks = [(10000, \<lparr>l_price = 10000, l_total_quantity = 5, l_order_count = 1,
                        l_head = Some 0, l_tail = Some 0\<rparr>)],
      orders = [(1, 0), (2, 1)],
      pool = \<lparr>pool_orders =
                [\<lparr>o_id = 1, o_price = 10000, o_quantity = 5, o_filled_quantity = 0,
                  o_side = Sell, o_type = Limit, o_status = Active, o_prev = None,
                  o_next = None, o_timestamp = 1\<rparr>,
                 \<lparr>o_id = 2, o_price = 9900, o_quantity = 7, o_filled_quantity = 0,
                  o_side = Buy, o_type = Limit, o_status = Active, o_prev = None,
                  o_next = None, o_timestamp = 2\<rparr>],
              pool_free_stack = [1, 0], pool_capacity = 2, pool_size = 2,
              pool_free_count = 0\<rparr>,
      next_id = 2, timestamp_counter = 2, trade_count = 0, total_volume = 0\<rparr>"

text \<open>A book of capacity 4 after the same two submissions: two slots are free.\<close>

definition resting_book :: book where
  "resting_book =
     \<lparr>bids = [(9900, \<lparr>l_price = 9900, l_total_quantity = 7, l_order_count = 1,
                       l_head = Some 1, l_tail = Some 1\<rparr>)],
      asks = [(10000, \<lparr>l_price = 10000, l_total_quantity = 5, l_order_count = 1,
                        l_head = Some 0, l_tail = Some 0\<rparr>)],
      orders = [(1, 0), (2, 1)],
      pool = \<lparr>pool_orders =
                [\<lparr>o_id = 1, o_price = 10000, o_quantity = 5, o_filled_quantity = 0,
                  o_side = Sell, o_type = Limit, o_status = Active, o_prev = None,
                  o_next = None, o_timestamp = 1\<rparr>,
                 \<lparr>o_id = 2, o_price = 9900, o_quantity = 7, o_filled_quantity = 0,
                  o_side = Buy, o_type = Limit, o_status = Active, o_prev = None,
                  o_next = None, o_timestamp = 2\<rparr>,
                 default_order, default_order],
              pool_free_stack = [3, 2, 1, 0], pool_capacity = 4, pool_size = 2,
              pool_free_count = 2\<rparr>,
      next_id = 2, timestamp_counter = 2, trade_count = 0, total_volume = 0\<rparr>"

section \<open>Linked segments\<close>

lemma dseg_bound: "dseg h prv frs q lst nxt \<Longrightarrow> p \<in> set q \<Longrightarrow> p < length h"
  by (induction q arbitrary: prv frs) auto

lemma dseg_walk: "dseg h prv frs q lst None \<Longrightarrow> length q \<le> n \<Longrightarrow> walk n h frs = q"
proof (induction q arbitrary: n prv frs)
  case Nil
  then show ?case by (cases n) auto
next
  case (Cons i q)
  then obtain m where n: "n = Suc m" by (cases n) auto
  with Cons show ?case by auto
qed

lemma distinct_bounded_length:
  assumes "distinct q" and "\<forall>p\<in>set q. p < (n::nat)"
  shows "length q \<le> n"
proof -
  have "set q \<subseteq> {..<n}" using assms(2) by auto
  then have "card (set q) \<le> card {..<n}" by (intro card_mono) auto
  then show ?thesis using assms(1) by (simp add: distinct_card)
qed

lemma valid_queue_unique: "valid_queue h lv q \<Longrightarrow> queue_of h lv = q"
  unfolding valid_queue_def queue_of_def
  by (metis dseg_walk distinct_bounded_length dseg_bound)

lemma valid_queue_bound: "valid_queue h lv q \<Longrightarrow> p \<in> set q \<Longrightarrow> p < length h"
  unfolding valid_queue_def by (metis dseg_bound)

lemma nth_upd: "h[p := v] ! j = (if j = p \<and> p < length h then v else h ! j)"
  by (cases "p < length h") (auto simp: nth_list_update list_update_beyond)

lemma nth_update_other: "x \<notin> set xs \<Longrightarrow> p \<in> set xs \<Longrightarrow> h[x := v] ! p = h ! p"
  by (cases "x = p") auto

lemma dseg_frame:
  "dseg h prv frs q lst nxt \<Longrightarrow> length h' = length h
   \<Longrightarrow> \<forall>p\<in>set q. o_prev (h' ! p) = o_prev (h ! p) \<and> o_next (h' ! p) = o_next (h ! p)
   \<Longrightarrow> dseg h' prv frs q lst nxt"
  by (induction q arbitrary: prv frs) auto

lemma dseg_append:
  "dseg h prv frs (xs @ ys) lst nxt = (\<exists>m f. dseg h prv frs xs m f \<and> dseg h m f ys lst nxt)"
  by (induction xs arbitrary: prv frs) auto

lemma dseg_snoc:
  "dseg h prv frs (xs @ [x]) lst nxt =
     (\<exists>m. dseg h prv frs xs m (Some x) \<and> x < length h \<and> o_prev (h ! x) = m
           \<and> o_next (h ! x) = nxt \<and> lst = Some x)"
  by (auto simp: dseg_append)

lemma dseg_set_next_last:
  assumes "dseg h prv frs (xs @ [x]) lst nxt" and "x \<notin> set xs"
  shows "dseg (h[x := (h ! x)\<lparr>o_next := n\<rparr>]) prv frs (xs @ [x]) lst n"
proof -
  from assms(1) obtain m where m: "dseg h prv frs xs m (Some x)" "x < length h"
    "o_prev (h ! x) = m" "lst = Some x"
    by (auto simp: dseg_snoc)
  have "dseg (h[x := (h ! x)\<lparr>o_next := n\<rparr>]) prv frs xs m (Some x)"
    using assms(2) by (intro dseg_frame[OF m(1)]) (auto simp: nth_update_other)
  then show ?thesis using m by (auto simp: dseg_snoc)
qed

lemma dseg_set_prev_first:
  assumes "dseg h prv frs (y # ys) lst nxt" and "y \<notin> set ys"
  shows "dseg (h[y := (h ! y)\<lparr>o_prev := m\<rparr>]) m frs (y # ys) lst nxt"
proof -
  from assms(1) have y: "frs = Some y" "y < length h"
    and r: "dseg h (Some y) (o_next (h ! y)) ys lst nxt" by auto
  have "dseg (h[y := (h ! y)\<lparr>o_prev := m\<rparr>]) (Some y) (o_next (h ! y)) ys lst nxt"
    using assms(2) by (intro dseg_frame[OF r]) (auto simp: nth_update_other)
  then show ?thesis using y by auto
qed

lemma data_fields:
  "data x = data y \<Longrightarrow>
     o_id x = o_id y \<and> o_price x = o_price y \<and> o_quantity x = o_quantity y
     \<and> o_filled_quantity x = o_filled_quantity y \<and> o_side x = o_side y \<and> o_type x = o_type y
     \<and> o_status x = o_status y \<and> o_timestamp x = o_timestamp y \<and> remaining x = remaining y
     \<and> is_filled x = is_filled y"
  unfolding data_def remaining_def is_filled_def
  by (cases x, cases y) simp

lemma data_upd_links [simp]:
  "data (x\<lparr>o_prev := a\<rparr>) = data x" "data (x\<lparr>o_next := b\<rparr>) = data x"
  by (simp_all add: data_def)

lemma level_add_order_valid:
  assumes vq: "valid_queue h lv q" and nin: "a \<notin> set q" and lt: "a < length h"
  shows "valid_queue (snd (level_add_order a (lv, h))) (fst (level_add_order a (lv, h))) (q @ [a])"
proof (cases q rule: rev_cases)
  case Nil
  with vq have "l_head lv = None" "l_tail lv = None" by (auto simp: valid_queue_def)
  then show ?thesis using Nil lt
    by (simp add: level_add_order_def Let_def valid_queue_def)
next
  case (snoc xs x)
  from vq snoc have d: "dseg h None (l_head lv) (xs @ [x]) (l_tail lv) None"
    and dist: "distinct (xs @ [x])" by (auto simp: valid_queue_def)
  from d have tl: "l_tail lv = Some x" and xl: "x < length h" by (auto simp: dseg_snoc)
  from nin snoc have ax: "a \<noteq> x" "a \<notin> set xs" by auto
  define h2 where "h2 = h[a := (h ! a)\<lparr>o_prev := Some x, o_next := None\<rparr>]"
  have d2: "dseg h2 None (l_head lv) (xs @ [x]) (l_tail lv) None"
    using ax unfolding h2_def by (intro dseg_frame[OF d]) (auto simp: nth_upd)
  have d3: "dseg (h2[x := (h2 ! x)\<lparr>o_next := Some a\<rparr>]) None (l_head lv) (xs @ [x]) (l_tail lv) (Some a)"
    using dist by (intro dseg_set_next_last[OF d2]) auto
  have "dseg (h2[x := (h2 ! x)\<lparr>o_next := Some a\<rparr>]) None (l_head lv) ((xs @ [x]) @ [a]) (Some a) None"
    unfolding dseg_append[of _ _ _ "xs @ [x]"]
    using d3 tl ax lt by (auto simp: h2_def intro!: exI[of _ "Some x"] exI[of _ "Some a"])
  then show ?thesis using snoc tl dist nin lt
    by (simp add: level_add_order_def Let_def valid_queue_def h2_def nth_upd)
qed

lemma level_add_order_heap:
  "length (snd (level_add_order a (lv, h))) = length h"
  "j \<noteq> a \<Longrightarrow> Some j \<noteq> l_tail lv \<Longrightarrow> snd (level_add_order a (lv, h)) ! j = h ! j"
  "data (snd (level_add_order a (lv, h)) ! j) = data (h ! j)"
  by (auto simp: level_add_order_def Let_def nth_upd split: option.splits)

lemma level_add_order_level:
  "l_price (fst (level_add_order a (lv, h))) = l_price lv"
  "l_order_count (fst (level_add_order a (lv, h))) = l_order_count lv + 1"
  "l_total_quantity (fst (level_add_order a (lv, h))) = l_total_quantity lv + remaining (h ! a)"
  unfolding level_add_order_def Let_def
  by (auto split: option.splits simp: remaining_def nth_upd)

lemma dseg_relink_next:
  assumes "dseg h None frs xs m f" and "distinct xs"
  shows "dseg (case m of Some x \<Rightarrow> h[x := (h ! x)\<lparr>o_next := n\<rparr>] | None \<Rightarrow> h) None
           (case m of Some x \<Rightarrow> frs | None \<Rightarrow> n) xs m n"
proof (cases xs rule: rev_cases)
  case Nil
  with assms show ?thesis by auto
next
  case (snoc xs' x)
  with assms have m: "m = Some x" by (auto simp: dseg_snoc)
  from assms snoc have "dseg (h[x := (h ! x)\<lparr>o_next := n\<rparr>]) None frs (xs' @ [x]) m n"
    by (intro dseg_set_next_last) auto
  then show ?thesis using m snoc by simp
qed

lemma dseg_relink_prev:
  assumes "dseg h prv frs ys lst None" and "distinct ys"
  shows "dseg (case frs of Some y \<Rightarrow> h[y := (h ! y)\<lparr>o_prev := m\<rparr>] | None \<Rightarrow> h) m frs ys
           (case frs of Some y \<Rightarrow> lst | None \<Rightarrow> m) None"
proof (cases ys)
  case Nil
  with assms show ?thesis by auto
next
  case (Cons y ys')
  with assms have f: "frs = Some y" by auto
  from assms Cons have "dseg (h[y := (h ! y)\<lparr>o_prev := m\<rparr>]) m frs (y # ys') lst None"
    by (intro dseg_set_prev_first) auto
  then show ?thesis using f Cons by (simp del: dseg.simps)
qed

lemma dseg_last_in: "dseg h prv frs xs m f \<Longrightarrow> m = Some x \<Longrightarrow> prv = None \<Longrightarrow> x \<in> set xs"
  by (cases xs rule: rev_cases) (auto simp: dseg_snoc)

lemma dseg_first_in: "dseg h prv frs ys lst nxt \<Longrightarrow> frs = Some y \<Longrightarrow> nxt = None \<Longrightarrow> y \<in> set ys"
  by (cases ys) auto

lemma level_remove_order_valid:
  assumes vq: "valid_queue h lv q" and pin: "p \<in> set q"
  shows "valid_queue (snd (level_remove_order p (lv, h))) (fst (level_remove_order p (lv, h)))
           (remove1 p q)"
proof -
  from vq have d: "dseg h None (l_head lv) q (l_tail lv) None" and dist: "distinct q"
    by (auto simp: valid_queue_def)
  from pin obtain xs ys where q: "q = xs @ p # ys" by (meson split_list)
  from dist q have nx: "p \<notin> set xs" and ny: "p \<notin> set ys" and dx: "distinct xs"
    and dy: "distinct ys" and xy: "set xs \<inter> set ys = {}" by auto
  have rm: "remove1 p q = xs @ ys" using q nx by (simp add: remove1_append)
  define m where "m = o_prev (h ! p)"
  define n where "n = o_next (h ! p)"
  from d q have pre: "dseg h None (l_head lv) xs m (Some p)" and pl: "p < length h"
    and suf: "dseg h (Some p) n ys (l_tail lv) None"
    by (auto simp: dseg_append m_def n_def)
  define h1 where "h1 = (case m of Some x \<Rightarrow> h[x := (h ! x)\<lparr>o_next := n\<rparr>] | None \<Rightarrow> h)"
  define hd1 where "hd1 = (case m of Some x \<Rightarrow> l_head lv | None \<Rightarrow> n)"
  define h2 where "h2 = (case n of Some y \<Rightarrow> h1[y := (h1 ! y)\<lparr>o_prev := m\<rparr>] | None \<Rightarrow> h1)"
  define tl2 where "tl2 = (case n of Some y \<Rightarrow> l_tail lv | None \<Rightarrow> m)"
  define h3 where "h3 = h2[p := (h2 ! p)\<lparr>o_prev := None, o_next := None\<rparr>]"
  have min: "\<And>x. m = Some x \<Longrightarrow> x \<in> set xs" using dseg_last_in[OF pre] by simp
  have nin: "\<And>y. n = Some y \<Longrightarrow> y \<in> set ys" using dseg_first_in[OF suf] by simp
  have len: "length h1 = length h" "length h2 = length h" "length h3 = length h"
    by (auto simp: h1_def h2_def h3_def split: option.splits)
  have pre1: "dseg h1 None hd1 xs m n"
    unfolding h1_def hd1_def by (rule dseg_relink_next[OF pre dx])
  have suf1: "dseg h1 (Some p) n ys (l_tail lv) None"
    using xy min by (intro dseg_frame[OF suf]) (auto simp: h1_def nth_upd split: option.splits)
  have p1: "o_next (h1 ! p) = n" "o_prev (h1 ! p) = m"
    using min nx by (auto simp: h1_def nth_upd m_def n_def split: option.splits)
  have suf2: "dseg h2 m n ys tl2 None"
    unfolding h2_def tl2_def by (rule dseg_relink_prev[OF suf1 dy])
  have pre2: "dseg h2 None hd1 xs m n"
    using xy nin by (intro dseg_frame[OF pre1]) (auto simp: h2_def nth_upd split: option.splits)
  have pre3: "dseg h3 None hd1 xs m n"
    using nx by (intro dseg_frame[OF pre2]) (auto simp: h3_def nth_upd)
  have suf3: "dseg h3 m n ys tl2 None"
    using ny by (intro dseg_frame[OF suf2]) (auto simp: h3_def nth_upd)
  have all: "dseg h3 None hd1 (xs @ ys) tl2 None"
    unfolding dseg_append using pre3 suf3 by blast
  have R: "snd (level_remove_order p (lv, h)) = h3"
    "l_head (fst (level_remove_order p (lv, h))) = hd1"
    "l_tail (fst (level_remove_order p (lv, h))) = tl2"
    using p1 unfolding level_remove_order_def Let_def h3_def h2_def h1_def hd1_def tl2_def m_def n_def
    by (auto split: option.splits)
  show ?thesis
    unfolding valid_queue_def R rm using all dx dy xy by auto
qed

lemma level_remove_order_heap:
  "length (snd (level_remove_order p (lv, h))) = length h"
  "j \<noteq> p \<Longrightarrow> Some j \<noteq> o_prev (h ! p) \<Longrightarrow> Some j \<noteq> o_next (h ! p)
     \<Longrightarrow> snd (level_remove_order p (lv, h)) ! j = h ! j"
  "data (snd (level_remove_order p (lv, h)) ! j) = data (h ! j)"
  by (auto simp: level_remove_order_def Let_def nth_upd data_def split: option.splits)

lemma level_remove_order_level:
  "l_price (fst (level_remove_order p (lv, h))) = l_price lv"
  "l_order_count (fst (level_remove_order p (lv, h))) = l_order_count lv - 1"
  "l_total_quantity (fst (level_remove_order p (lv, h))) = l_total_quantity lv - remaining (h ! p)"
  unfolding level_remove_order_def Let_def
  by (auto split: option.splits simp: remaining_def nth_upd)

lemma valid_queue_links:
  assumes vq: "valid_queue h lv q" and pin: "p \<in> set q"
  shows "o_prev (h ! p) = Some j \<Longrightarrow> j \<in> set q" and "o_next (h ! p) = Some j \<Longrightarrow> j \<in> set q"
proof -
  from vq have d: "dseg h None (l_head lv) q (l_tail lv) None" by (auto simp: valid_queue_def)
  from pin obtain xs ys where q: "q = xs @ p # ys" by (meson split_list)
  from d q obtain m where pre: "dseg h None (l_head lv) xs m (Some p)" "o_prev (h ! p) = m"
    and suf: "dseg h (Some p) (o_next (h ! p)) ys (l_tail lv) None"
    by (auto simp: dseg_append)
  show "o_prev (h ! p) = Some j \<Longrightarrow> j \<in> set q"
    using dseg_last_in[OF pre(1)] pre(2) q by auto
  show "o_next (h ! p) = Some j \<Longrightarrow> j \<in> set q"
    using dseg_first_in[OF suf] q by auto
qed

section \<open>Book-level bookkeeping\<close>

lemma heap_simps [simp]:
  "heap (set_heap h s) = h"
  "heap (set_levels sd lvs s) = heap s"
  "heap (s\<lparr>orders := os\<rparr>) = heap s"
  "heap (s\<lparr>bids := bs\<rparr>) = heap s"
  "heap (s\<lparr>asks := as\<rparr>) = heap s"
  "heap (s\<lparr>next_id := n\<rparr>) = heap s"
  "heap (s\<lparr>timestamp_counter := n\<rparr>) = heap s"
  "heap (s\<lparr>trade_count := n\<rparr>) = heap s"
  "heap (s\<lparr>total_volume := n\<rparr>) = heap s"
  "heap (s\<lparr>pool := pl\<rparr>) = pool_orders pl"
  "pool_orders (deallocate p pl) = pool_orders pl"
  "heap (upd_order p f s) = (heap s)[p := f (heap s ! p)]"
  by (simp_all add: heap_def set_heap_def set_levels_def deallocate_def upd_order_def order_at_def)

lemma order_at_heap: "order_at s p = heap s ! p"
  by (simp add: order_at_def heap_def)

lemma levels_simps [simp]:
  "levels sd (set_heap h s) = levels sd s"
  "levels sd (set_levels sd' lvs s) = (if sd = sd' then lvs else levels sd s)"
  "levels sd (s\<lparr>orders := os\<rparr>) = levels sd s"
  "levels sd (s\<lparr>pool := pl\<rparr>) = levels sd s"
  "levels sd (s\<lparr>next_id := n\<rparr>) = levels sd s"
  "levels sd (s\<lparr>timestamp_counter := n\<rparr>) = levels sd s"
  "levels sd (s\<lparr>trade_count := n\<rparr>) = levels sd s"
  "levels sd (s\<lparr>total_volume := n\<rparr>) = levels sd s"
  "levels sd (upd_order p f s) = levels sd s"
  "levels Buy (s\<lparr>bids := bs\<rparr>) = bs"
  "levels Sell (s\<lparr>bids := bs\<rparr>) = levels Sell s"
  "levels Sell (s\<lparr>asks := as\<rparr>) = as"
  "levels Buy (s\<lparr>asks := as\<rparr>) = levels Buy s"
  by (cases sd; cases sd'; simp add: levels_def set_heap_def set_levels_def upd_order_def)+

lemma orders_simps [simp]:
  "orders (set_heap h s) = orders s"
  "orders (set_levels sd lvs s) = orders s"
  "orders (upd_order p f s) = orders s"
  by (simp_all add: set_heap_def set_levels_def upd_order_def)

lemma pool_simps [simp]:
  "pool_free_stack (pool (set_heap h s)) = pool_free_stack (pool s)"
  "pool_free_count (pool (set_heap h s)) = pool_free_count (pool s)"
  "pool_capacity (pool (set_heap h s)) = pool_capacity (pool s)"
  "pool_size (pool (set_heap h s)) = pool_size (pool s)"
  "pool (set_levels sd lvs s) = pool s"
  "pool_free_stack (pool (upd_order p f s)) = pool_free_stack (pool s)"
  "pool_free_count (pool (upd_order p f s)) = pool_free_count (pool s)"
  "pool_capacity (pool (upd_order p f s)) = pool_capacity (pool s)"
  "pool_size (pool (upd_order p f s)) = pool_size (pool s)"
  by (simp_all add: set_heap_def set_levels_def upd_order_def)

lemma counters_simps [simp]:
  "next_id (set_heap h s) = next_id s"
  "timestamp_counter (set_heap h s) = timestamp_counter s"
  "trade_count (set_heap h s) = trade_count s"
  "total_volume (set_heap h s) = total_volume s"
  "next_id (set_levels sd lvs s) = next_id s"
  "timestamp_counter (set_levels sd lvs s) = timestamp_counter s"
  "trade_count (set_levels sd lvs s) = trade_count s"
  "total_volume (set_levels sd lvs s) = total_volume s"
  "next_id (upd_order p f s) = next_id s"
  "timestamp_counter (upd_order p f s) = timestamp_counter s"
  "trade_count (upd_order p f s) = trade_count s"
  "total_volume (upd_order p f s) = total_volume s"
  by (simp_all add: set_heap_def set_levels_def upd_order_def)

lemma qset_queued: "set (queued s) = qset s"
  by (auto simp: queued_def queues_def qset_def side_slots_def)

lemma core_inv_alt:
  "core_inv s = (lv_inv (heap s) Buy (levels Buy s) \<and> lv_inv (heap s) Sell (levels Sell s)
                 \<and> idx_ok (heap s) (orders s) (qset s)
                 \<and> pool_ok (length (heap s)) (pool s) (qset s))"
  unfolding core_inv_def lv_inv_def idx_ok_def pool_ok_def levels_def free_slots_def
    list_all_iff qset_queued
  by auto

lemma lv_inv_side: "core_inv s \<Longrightarrow> lv_inv (heap s) sd (levels sd s)"
  by (cases sd) (auto simp: core_inv_alt)

lemma qset_side: "side_slots (heap s) (levels sd s) \<subseteq> qset s"
  by (cases sd) (auto simp: qset_def)

lemma sum_list_map_upd:
  fixes g :: "nat \<Rightarrow> 'a::ab_group_add"
  shows "distinct q \<Longrightarrow> p \<in> set q \<Longrightarrow> sum_list (map (g(p := y)) q) = sum_list (map g q) - g p + y"
proof (induction q)
  case Nil
  then show ?case by simp
next
  case (Cons x q)
  show ?case
  proof (cases "x = p")
    case True
    with Cons.prems have "p \<notin> set q" by auto
    then have "sum_list (map (g(p := y)) q) = sum_list (map g q)"
      by (rule_tac arg_cong[where f = sum_list], rule_tac map_cong) auto
    moreover have "(g(p := y)) p = y" by simp
    ultimately show ?thesis using True by (simp add: algebra_simps del: fun_upd_apply)
  next
    case False
    with Cons show ?thesis by (simp add: algebra_simps)
  qed
qed

lemma sum_list_remove1:
  fixes g :: "nat \<Rightarrow> 'a::ab_group_add"
  shows "p \<in> set q \<Longrightarrow> sum_list (map g (remove1 p q)) = sum_list (map g q) - g p"
  by (induction q) (auto simp: algebra_simps)

lemma level_ok_frame:
  assumes ok: "level_ok h sd e" and len: "length h' = length h"
    and same: "\<forall>p\<in>set (queue_of h (snd e)). h' ! p = h ! p"
  shows "level_ok h' sd e" and "queue_of h' (snd e) = queue_of h (snd e)"
proof -
  let ?q = "queue_of h (snd e)"
  from ok have vq: "valid_queue h (snd e) ?q" by (simp add: level_ok_def Let_def)
  then have "valid_queue h' (snd e) ?q"
    unfolding valid_queue_def using len same by (auto intro: dseg_frame)
  then show q: "queue_of h' (snd e) = ?q" by (rule valid_queue_unique)
  have "sum_list (map (\<lambda>p. remaining (h' ! p)) ?q) = sum_list (map (\<lambda>p. remaining (h ! p)) ?q)"
    using same by (rule_tac arg_cong[where f = sum_list], rule_tac map_cong) auto
  then show "level_ok h' sd e"
    using ok same \<open>valid_queue h' (snd e) ?q\<close> unfolding level_ok_def Let_def q by auto
qed

section \<open>Levels of one side\<close>

lemma sorted_keys_distinct: "sorted_wrt (<) (map fst (lvs :: (price \<times> price_level) list)) \<Longrightarrow> distinct (map fst lvs)"
  by (simp add: strict_sorted_iff)

lemma map_fst_set_level [simp]: "map fst (set_level k lv lvs) = map fst lvs"
  by (induction lvs) (auto simp: set_level_def)

lemma length_set_level [simp]: "length (set_level k lv lvs) = length lvs"
  by (simp add: set_level_def)

lemma set_level_absent: "k \<notin> fst ` set al \<Longrightarrow> set_level k v al = al"
  unfolding set_level_def by (intro map_idI) auto

lemma set_level_Cons:
  "set_level k v (e # al) = (if fst e = k then (k, v) else e) # set_level k v al"
  by (simp add: set_level_def)

lemma update_set_level:
  "distinct (map fst al) \<Longrightarrow> map_of al k = Some v0 \<Longrightarrow> AList.update k v al = set_level k v al"
proof (induction al)
  case Nil
  then show ?case by simp
next
  case (Cons e al)
  show ?case
  proof (cases "fst e = k")
    case True
    with Cons.prems have "k \<notin> fst ` set al" by auto
    then have "set_level k v al = al" by (rule set_level_absent)
    with True show ?thesis by (cases e) (simp add: set_level_Cons)
  next
    case False
    with Cons show ?thesis by (cases e) (auto simp: set_level_Cons)
  qed
qed

lemma list_update_set_level:
  "distinct (map fst al) \<Longrightarrow> i < length al \<Longrightarrow> fst (al ! i) = k \<Longrightarrow> al[i := (k, v)] = set_level k v al"
proof (induction al arbitrary: i)
  case Nil
  then show ?case by simp
next
  case (Cons e al)
  show ?case
  proof (cases i)
    case 0
    with Cons.prems have k: "k \<notin> fst ` set al" "fst e = k" by auto
    then have "set_level k v al = al" by (intro set_level_absent)
    with 0 k show ?thesis by (simp add: set_level_Cons)
  next
    case (Suc j)
    with Cons.prems have "fst (al ! j) = k" "j < length al" by auto
    then have kin: "k \<in> fst ` set al" by (metis image_eqI nth_mem)
    from Cons.prems(1) have "fst e \<notin> fst ` set al" by simp
    with kin have "fst e \<noteq> k" by auto
    with Suc Cons show ?thesis by (auto simp: set_level_Cons)
  qed
qed

lemma map_of_set_level:
  "map_of (set_level k v al) k' = (if k' = k \<and> map_of al k \<noteq> None then Some v else map_of al k')"
  by (induction al) (auto simp: set_level_def)

lemma set_set_level:
  "distinct (map fst al) \<Longrightarrow> (k, v0) \<in> set al \<Longrightarrow>
     set (set_level k v al) = insert (k, v) (set al - {(k, v0)})"
  unfolding set_level_def by (force simp: eq_key_imp_eq_value)

lemma lv_inv_slot:
  assumes "lv_inv h sd lvs" and "e \<in> set lvs" and "p \<in> set (queue_of h (snd e))"
  shows "o_side (h ! p) = sd" and "o_price (h ! p) = fst e" and "p < length h"
    and "map_of lvs (fst e) = Some (snd e)"
proof -
  from assms(1,2) have ok: "level_ok h sd e" by (auto simp: lv_inv_def list_all_iff)
  with assms(3) show "o_side (h ! p) = sd" "o_price (h ! p) = fst e"
    by (auto simp: level_ok_def Let_def)
  from ok have "valid_queue h (snd e) (queue_of h (snd e))" by (simp add: level_ok_def Let_def)
  from this assms(3) show "p < length h" by (rule valid_queue_bound)
  from assms(1) have "distinct (map fst lvs)" by (simp add: lv_inv_def sorted_keys_distinct)
  with assms(2) show "map_of lvs (fst e) = Some (snd e)" by (cases e) auto
qed

lemma lv_inv_level_ok: "lv_inv h sd lvs \<Longrightarrow> e \<in> set lvs \<Longrightarrow> level_ok h sd e"
  by (auto simp: lv_inv_def list_all_iff)

lemma level_ok_valid: "level_ok h sd e \<Longrightarrow> valid_queue h (snd e) (queue_of h (snd e))"
  by (simp add: level_ok_def Let_def)

lemma lv_inv_frame:
  assumes inv: "lv_inv h sd lvs" and len: "length h' = length h"
    and same: "\<And>j. j \<in> side_slots h lvs \<Longrightarrow> h' ! j = h ! j"
  shows "lv_inv h' sd lvs" and "side_slots h' lvs = side_slots h lvs"
    and "\<And>e. e \<in> set lvs \<Longrightarrow> queue_of h' (snd e) = queue_of h (snd e)"
proof -
  have each: "level_ok h' sd e \<and> queue_of h' (snd e) = queue_of h (snd e)" if "e \<in> set lvs" for e
  proof -
    have "\<forall>p\<in>set (queue_of h (snd e)). h' ! p = h ! p"
      using same that by (auto simp: side_slots_def)
    with level_ok_frame[OF lv_inv_level_ok[OF inv that] len] show ?thesis by blast
  qed
  then show "lv_inv h' sd lvs" using inv by (auto simp: lv_inv_def list_all_iff)
  show "side_slots h' lvs = side_slots h lvs" using each by (auto simp: side_slots_def)
  show "\<And>e. e \<in> set lvs \<Longrightarrow> queue_of h' (snd e) = queue_of h (snd e)" using each by blast
qed

lemma lv_inv_set_level:
  assumes inv: "lv_inv h sd lvs" and mem: "(k, lv) \<in> set lvs" and len: "length h' = length h"
    and frame: "\<And>j. j \<notin> set (queue_of h lv) \<Longrightarrow> j \<notin> X \<Longrightarrow> h' ! j = h ! j"
    and X: "X \<inter> side_slots h lvs = {}"
    and new: "level_ok h' sd (k, lv')"
  shows "lv_inv h' sd (set_level k lv' lvs)"
    and "side_slots h' (set_level k lv' lvs)
           = (side_slots h lvs - set (queue_of h lv)) \<union> set (queue_of h' lv')"
    and "\<And>e. e \<in> set lvs \<Longrightarrow> fst e \<noteq> k \<Longrightarrow> queue_of h' (snd e) = queue_of h (snd e)"
proof -
  have dist: "distinct (map fst lvs)" using inv by (simp add: lv_inv_def sorted_keys_distinct)
  have other: "level_ok h' sd e \<and> queue_of h' (snd e) = queue_of h (snd e)
               \<and> set (queue_of h (snd e)) \<inter> set (queue_of h lv) = {}"
    if e: "e \<in> set lvs" and ne: "fst e \<noteq> k" for e
  proof -
    have disj: "p \<notin> set (queue_of h lv)" if "p \<in> set (queue_of h (snd e))" for p
      using lv_inv_slot(2)[OF inv e that] lv_inv_slot(2)[OF inv mem, of p] ne by auto
    have "\<forall>p\<in>set (queue_of h (snd e)). h' ! p = h ! p"
    proof
      fix p assume p: "p \<in> set (queue_of h (snd e))"
      then have "p \<in> side_slots h lvs" using e by (auto simp: side_slots_def)
      with X have "p \<notin> X" by auto
      with disj[OF p] show "h' ! p = h ! p" by (rule frame)
    qed
    with level_ok_frame[OF lv_inv_level_ok[OF inv e] len] disj show ?thesis by blast
  qed
  have same: "e = (k, lv)" if "e \<in> set lvs" "fst e = k" for e
  proof -
    from that have "(k, snd e) \<in> set lvs" by (cases e) auto
    from eq_key_imp_eq_value[OF dist this mem] that show ?thesis by (cases e) auto
  qed
  have "list_all (level_ok h' sd) (set_level k lv' lvs)"
    using other new by (auto simp: list_all_iff set_level_def)
  then show "lv_inv h' sd (set_level k lv' lvs)"
    using inv by (simp add: lv_inv_def)
  show "side_slots h' (set_level k lv' lvs)
           = (side_slots h lvs - set (queue_of h lv)) \<union> set (queue_of h' lv')"
  proof -
    let ?O = "set lvs - {(k, lv)}"
    have S: "set (set_level k lv' lvs) = insert (k, lv') ?O"
      by (rule set_set_level[OF dist mem])
    have ne: "fst e \<noteq> k" if "e \<in> ?O" for e using same[of e] that by blast
    have A: "side_slots h' (set_level k lv' lvs)
               = set (queue_of h' lv') \<union> (\<Union>e\<in>?O. set (queue_of h' (snd e)))"
      by (simp add: side_slots_def S)
    have B: "(\<Union>e\<in>?O. set (queue_of h' (snd e))) = (\<Union>e\<in>?O. set (queue_of h (snd e)))"
      using other ne by (intro SUP_cong refl) simp
    have C: "side_slots h lvs = set (queue_of h lv) \<union> (\<Union>e\<in>?O. set (queue_of h (snd e)))"
      using mem unfolding side_slots_def by force
    have D: "(\<Union>e\<in>?O. set (queue_of h (snd e))) \<inter> set (queue_of h lv) = {}"
      using other ne by blast
    show ?thesis unfolding A B C using D by blast
  qed
  show "\<And>e. e \<in> set lvs \<Longrightarrow> fst e \<noteq> k \<Longrightarrow> queue_of h' (snd e) = queue_of h (snd e)"
    using other by blast
qed

lemma level_empty_iff: "valid_queue h lv q \<Longrightarrow> level_empty lv = (q = [])"
  by (cases q) (auto simp: valid_queue_def level_empty_def)

lemma level_head: "valid_queue h lv q \<Longrightarrow> l_head lv = (case q of [] \<Rightarrow> None | p # _ \<Rightarrow> Some p)"
  by (cases q) (auto simp: valid_queue_def)

section \<open>Order index and pool\<close>

lemma pool_ok_heap [simp]: "pool_ok n (pl\<lparr>pool_orders := h\<rparr>) Q = pool_ok n pl Q"
  by (simp add: pool_ok_def)

lemma pool_ok_mono: "pool_ok n pl Q \<Longrightarrow> Q' \<subseteq> Q \<Longrightarrow> pool_ok n pl Q'"
  by (auto simp: pool_ok_def)

lemma pool_ok_deallocate:
  assumes ok: "pool_ok n pl Q" and pn: "p < n"
    and nf: "p \<notin> set (take (pool_free_count pl) (pool_free_stack pl))" and nq: "p \<notin> Q"
  shows "pool_ok n (deallocate p pl) Q"
proof -
  let ?fs = "pool_free_stack pl" and ?fc = "pool_free_count pl"
  from ok have cap: "n = pool_capacity pl" "length ?fs = pool_capacity pl" "?fc \<le> pool_capacity pl"
    and dist: "distinct (take ?fc ?fs)"
    and bnd: "\<forall>i\<in>set (take ?fc ?fs). i < pool_capacity pl \<and> i \<notin> Q"
    by (auto simp: pool_ok_def)
  have "distinct (p # take ?fc ?fs)" using dist nf by simp
  moreover have "\<forall>i\<in>set (p # take ?fc ?fs). i < n" using bnd pn cap by auto
  ultimately have "length (p # take ?fc ?fs) \<le> n" by (rule distinct_bounded_length)
  then have lt: "?fc < length ?fs" using cap by simp
  then have tk: "take (Suc ?fc) (?fs[?fc := p]) = take ?fc ?fs @ [p]"
    by (simp add: take_Suc_conv_app_nth)
  show ?thesis
    unfolding pool_ok_def deallocate_def using cap dist bnd nf nq pn lt tk by auto
qed

lemma pool_ok_allocate:
  assumes ok: "pool_ok n pl Q" and ne: "pool_free_count pl \<noteq> 0"
  shows "\<exists>a pl'. allocate pl = Inr (a, pl')
           \<and> a = pool_free_stack pl ! (pool_free_count pl - 1)
           \<and> pl' = pl\<lparr>pool_free_count := pool_free_count pl - 1,
                       pool_orders := (pool_orders pl)[a := reset (pool_orders pl ! a)],
                       pool_size := pool_size pl + 1\<rparr>
           \<and> pool_ok n pl' Q \<and> a < n \<and> a \<notin> Q
           \<and> a \<notin> set (take (pool_free_count pl') (pool_free_stack pl'))"
proof -
  let ?fs = "pool_free_stack pl" and ?fc = "pool_free_count pl"
  from ok have cap: "n = pool_capacity pl" "length ?fs = pool_capacity pl" "?fc \<le> pool_capacity pl"
    and dist: "distinct (take ?fc ?fs)"
    and bnd: "\<forall>i\<in>set (take ?fc ?fs). i < pool_capacity pl \<and> i \<notin> Q"
    by (auto simp: pool_ok_def)
  from ne obtain m where m: "?fc = Suc m" by (cases ?fc) auto
  with cap have "m < length ?fs" by simp
  then have tk: "take ?fc ?fs = take m ?fs @ [?fs ! m]"
    unfolding m by (rule take_Suc_conv_app_nth)
  show ?thesis
    using cap dist bnd ne unfolding tk
    by (auto simp: allocate_def Let_def m pool_ok_def)
qed

lemma set_alist_update: "set (AList.update k v al) \<subseteq> insert (k, v) (set al)"
  by (induction al) auto

lemma set_alist_delete: "set (AList.delete k al) = {e \<in> set al. fst e \<noteq> k}"
  by (auto simp: AList.delete_eq)

lemma idx_ok_frame:
  "idx_ok h os Q \<Longrightarrow> (\<forall>x\<in>Q. o_id (h' ! x) = o_id (h ! x)) \<Longrightarrow> Q \<subseteq> Q' \<Longrightarrow> idx_ok h' os Q'"
  by (auto simp: idx_ok_def)

lemma idx_ok_delete:
  "idx_ok h os Q \<Longrightarrow> o_id (h ! p) = oid \<Longrightarrow> idx_ok h (AList.delete oid os) (Q - {p})"
  by (auto simp: idx_ok_def set_alist_delete distinct_delete)

lemma idx_ok_update:
  "idx_ok h os Q \<Longrightarrow> o_id (h ! a) = oid \<Longrightarrow> a \<in> Q \<Longrightarrow> idx_ok h (AList.update oid a os) Q"
  using set_alist_update[of oid a os] by (auto simp: idx_ok_def distinct_update)

section \<open>Operations on one level of the book\<close>

lemma opp_simps [simp]: "opp Buy = Sell" "opp Sell = Buy" "opp sd \<noteq> sd" "sd \<noteq> opp sd"
  "opp (opp sd) = sd"
  by (cases sd; simp add: opp_def)+

lemma side_cases: "sd' = sd \<or> sd' = opp sd"
  by (cases sd; cases sd'; simp)

lemma core_inv_alt2:
  "core_inv s = ((\<forall>sd. lv_inv (heap s) sd (levels sd s))
                 \<and> idx_ok (heap s) (orders s) (qset s)
                 \<and> pool_ok (length (heap s)) (pool s) (qset s))"
  unfolding core_inv_alt by (metis side.exhaust)

lemma qset_opp: "qset s = side_slots (heap s) (levels sd s) \<union> side_slots (heap s) (levels (opp sd) s)"
  by (cases sd) (auto simp: qset_def)

lemma level_okI:
  assumes "valid_queue h lv q"
    and "l_order_count lv = of_nat (length q)"
    and "l_total_quantity lv = sum_list (map (\<lambda>p. remaining (h ! p)) q)"
    and "\<And>p. p \<in> set q \<Longrightarrow> o_side (h ! p) = sd \<and> o_price (h ! p) = k"
  shows "level_ok h sd (k, lv)" and "queue_of h lv = q"
proof -
  show q: "queue_of h lv = q" using assms(1) by (rule valid_queue_unique)
  show "level_ok h sd (k, lv)" unfolding level_ok_def Let_def using assms q by auto
qed

lemma level_okD:
  assumes "level_ok h sd (k, lv)"
  shows "valid_queue h lv (queue_of h lv)"
    and "l_order_count lv = of_nat (length (queue_of h lv))"
    and "l_total_quantity lv = sum_list (map (\<lambda>p. remaining (h ! p)) (queue_of h lv))"
    and "\<And>p. p \<in> set (queue_of h lv) \<Longrightarrow> o_side (h ! p) = sd \<and> o_price (h ! p) = k"
  using assms unfolding level_ok_def Let_def by auto

lemma sum_list_cong: "(\<And>x. x \<in> set xs \<Longrightarrow> f x = g x) \<Longrightarrow> sum_list (map f xs) = sum_list (map g xs)"
  by (rule_tac arg_cong[where f = sum_list], rule_tac map_cong) auto

lemma level_ok_adjust:
  assumes ok: "level_ok h sd (k, lv)" and pin: "p \<in> set (queue_of h lv)"
    and len: "length h' = length h"
    and links: "\<And>j. j \<in> set (queue_of h lv) \<Longrightarrow>
                  o_prev (h' ! j) = o_prev (h ! j) \<and> o_next (h' ! j) = o_next (h ! j)
                  \<and> o_side (h' ! j) = o_side (h ! j) \<and> o_price (h' ! j) = o_price (h ! j)"
    and rem: "\<And>j. j \<in> set (queue_of h lv) \<Longrightarrow> j \<noteq> p \<Longrightarrow> remaining (h' ! j) = remaining (h ! j)"
    and lv': "l_head lv' = l_head lv" "l_tail lv' = l_tail lv" "l_order_count lv' = l_order_count lv"
      "l_total_quantity lv' = l_total_quantity lv - remaining (h ! p) + remaining (h' ! p)"
  shows "level_ok h' sd (k, lv')" and "queue_of h' lv' = queue_of h lv"
proof -
  let ?q = "queue_of h lv"
  note d = level_okD[OF ok]
  have vq: "valid_queue h' lv' ?q"
    using d(1) links len unfolding valid_queue_def lv' by (auto intro: dseg_frame)
  have "(\<lambda>j. remaining (h' ! j)) x = ((\<lambda>j. remaining (h ! j))(p := remaining (h' ! p))) x"
    if "x \<in> set ?q" for x using rem[OF that] by auto
  then have "sum_list (map (\<lambda>j. remaining (h' ! j)) ?q)
      = sum_list (map ((\<lambda>j. remaining (h ! j))(p := remaining (h' ! p))) ?q)"
    by (rule sum_list_cong)
  also have "\<dots> = sum_list (map (\<lambda>j. remaining (h ! j)) ?q) - remaining (h ! p) + remaining (h' ! p)"
    using d(1) pin by (intro sum_list_map_upd) (auto simp: valid_queue_def)
  finally have tot: "l_total_quantity lv' = sum_list (map (\<lambda>j. remaining (h' ! j)) ?q)"
    using lv'(4) d(3) by simp
  have cnt: "l_order_count lv' = of_nat (length ?q)" using d(2) lv'(3) by simp
  have fld: "\<And>j. j \<in> set ?q \<Longrightarrow> o_side (h' ! j) = sd \<and> o_price (h' ! j) = k"
    using d(4) links by auto
  show "level_ok h' sd (k, lv')" by (rule level_okI(1)[OF vq cnt tot fld])
  show "queue_of h' lv' = ?q" by (rule level_okI(2)[OF vq cnt tot fld])
qed

lemma level_ok_remove:
  assumes ok: "level_ok h sd (k, lv)" and pin: "p \<in> set (queue_of h lv)"
  shows "level_ok (snd (level_remove_order p (lv, h))) sd (k, fst (level_remove_order p (lv, h)))"
    and "queue_of (snd (level_remove_order p (lv, h))) (fst (level_remove_order p (lv, h)))
           = remove1 p (queue_of h lv)"
proof -
  let ?q = "queue_of h lv"
  let ?R = "level_remove_order p (lv, h)"
  note d = level_okD[OF ok]
  have vq: "valid_queue (snd ?R) (fst ?R) (remove1 p ?q)"
    by (rule level_remove_order_valid[OF d(1) pin])
  have pos: "1 \<le> length ?q" using pin by (cases ?q) auto
  have cnt: "l_order_count (fst ?R) = of_nat (length (remove1 p ?q))"
    using pin pos d(2) by (simp add: level_remove_order_level length_remove1 of_nat_diff)
  have dat: "remaining (snd ?R ! j) = remaining (h ! j)
       \<and> o_side (snd ?R ! j) = o_side (h ! j) \<and> o_price (snd ?R ! j) = o_price (h ! j)" for j
    using data_fields[OF level_remove_order_heap(3)[of p lv h j]] by simp
  have "sum_list (map (\<lambda>j. remaining (snd ?R ! j)) (remove1 p ?q))
      = sum_list (map (\<lambda>j. remaining (h ! j)) (remove1 p ?q))"
    using dat by (intro sum_list_cong) simp
  also have "\<dots> = sum_list (map (\<lambda>j. remaining (h ! j)) ?q) - remaining (h ! p)"
    using pin by (rule sum_list_remove1)
  finally have tot: "l_total_quantity (fst ?R) = sum_list (map (\<lambda>j. remaining (snd ?R ! j)) (remove1 p ?q))"
    using d(3) by (simp add: level_remove_order_level)
  have fld: "\<And>j. j \<in> set (remove1 p ?q) \<Longrightarrow> o_side (snd ?R ! j) = sd \<and> o_price (snd ?R ! j) = k"
    using d(4) dat by (auto dest: notin_set_remove1)
  show "level_ok (snd ?R) sd (k, fst ?R)" by (rule level_okI(1)[OF vq cnt tot fld])
  show "queue_of (snd ?R) (fst ?R) = remove1 p ?q" by (rule level_okI(2)[OF vq cnt tot fld])
qed

lemma level_ok_add:
  assumes ok: "level_ok h sd (k, lv)" and nin: "a \<notin> set (queue_of h lv)" and lt: "a < length h"
    and fa: "o_side (h ! a) = sd" "o_price (h ! a) = k"
  shows "level_ok (snd (level_add_order a (lv, h))) sd (k, fst (level_add_order a (lv, h)))"
    and "queue_of (snd (level_add_order a (lv, h))) (fst (level_add_order a (lv, h)))
           = queue_of h lv @ [a]"
proof -
  let ?q = "queue_of h lv"
  let ?R = "level_add_order a (lv, h)"
  note d = level_okD[OF ok]
  have vq: "valid_queue (snd ?R) (fst ?R) (?q @ [a])"
    by (rule level_add_order_valid[OF d(1) nin lt])
  have cnt: "l_order_count (fst ?R) = of_nat (length (?q @ [a]))"
    using d(2) by (simp add: level_add_order_level)
  have dat: "remaining (snd ?R ! j) = remaining (h ! j)
       \<and> o_side (snd ?R ! j) = o_side (h ! j) \<and> o_price (snd ?R ! j) = o_price (h ! j)" for j
    using data_fields[OF level_add_order_heap(3)[of a lv h j]] by simp
  have "sum_list (map (\<lambda>j. remaining (snd ?R ! j)) (?q @ [a]))
      = sum_list (map (\<lambda>j. remaining (h ! j)) (?q @ [a]))"
    using dat by (intro sum_list_cong) simp
  then have tot: "l_total_quantity (fst ?R) = sum_list (map (\<lambda>j. remaining (snd ?R ! j)) (?q @ [a]))"
    using d(3) by (simp add: level_add_order_level)
  have fld: "\<And>j. j \<in> set (?q @ [a]) \<Longrightarrow> o_side (snd ?R ! j) = sd \<and> o_price (snd ?R ! j) = k"
    using d(4) dat fa by auto
  show "level_ok (snd ?R) sd (k, fst ?R)" by (rule level_okI(1)[OF vq cnt tot fld])
  show "queue_of (snd ?R) (fst ?R) = ?q @ [a]" by (rule level_okI(2)[OF vq cnt tot fld])
qed

lemma level_ok_init: "level_ok h sd (k, price_level_init p)"
  and queue_of_init: "queue_of h (price_level_init p) = []"
proof -
  have q: "queue_of h (price_level_init p) = []"
    by (cases "length h") (simp_all add: queue_of_def price_level_init_def)
  then show "queue_of h (price_level_init p) = []" .
  have "valid_queue h (price_level_init p) []"
    by (simp add: valid_queue_def price_level_init_def)
  then show "level_ok h sd (k, price_level_init p)"
    by (rule level_okI(1)) (simp_all add: price_level_init_def)
qed

lemma core_inv_LV:
  "core_inv s = (LV s \<and> idx_ok (heap s) (orders s) (qset s)
                 \<and> pool_ok (length (heap s)) (pool s) (qset s))"
  by (simp add: core_inv_alt2 LV_def)

lemma LV_side: "LV s \<Longrightarrow> lv_inv (heap s) sd (levels sd s)"
  by (simp add: LV_def)

lemma LV_level_op:
  assumes inv: "LV s" and mem: "(k, lv) \<in> set (levels sd s)"
    and len: "length (heap s') = length (heap s)"
    and frame: "\<And>j. j \<notin> set (queue_of (heap s) lv) \<Longrightarrow> j \<notin> X \<Longrightarrow> heap s' ! j = heap s ! j"
    and X: "X \<inter> qset s = {}"
    and lvs: "levels sd s' = set_level k lv' (levels sd s)"
             "levels (opp sd) s' = levels (opp sd) s"
    and new: "level_ok (heap s') sd (k, lv')"
  shows "lv_inv (heap s') sd' (levels sd' s')"
    and "qset s' = (qset s - set (queue_of (heap s) lv)) \<union> set (queue_of (heap s') lv')"
proof -
  have q_in: "set (queue_of (heap s) lv) \<subseteq> side_slots (heap s) (levels sd s)"
    using mem by (force simp: side_slots_def)
  have X1: "X \<inter> side_slots (heap s) (levels sd s) = {}"
    using X qset_side[of s sd] by blast
  have a: "lv_inv (heap s') sd (levels sd s')"
    unfolding lvs by (rule lv_inv_set_level(1)[OF LV_side[OF inv] mem len frame X1 new])
  have a2: "side_slots (heap s') (levels sd s')
      = (side_slots (heap s) (levels sd s) - set (queue_of (heap s) lv)) \<union> set (queue_of (heap s') lv')"
    unfolding lvs by (rule lv_inv_set_level(2)[OF LV_side[OF inv] mem len frame X1 new])
  have disj: "j \<notin> set (queue_of (heap s) lv)" if "j \<in> side_slots (heap s) (levels (opp sd) s)" for j
  proof
    assume j: "j \<in> set (queue_of (heap s) lv)"
    from that obtain e where e: "e \<in> set (levels (opp sd) s)" "j \<in> set (queue_of (heap s) (snd e))"
      by (auto simp: side_slots_def)
    from lv_inv_slot(1)[OF LV_side[OF inv] e] lv_inv_slot(1)[OF LV_side[OF inv] mem] j
    show False by simp
  qed
  have same: "heap s' ! j = heap s ! j" if "j \<in> side_slots (heap s) (levels (opp sd) s)" for j
  proof -
    have "j \<notin> X" using that X qset_side[of s "opp sd"] by blast
    with disj[OF that] show ?thesis by (rule frame)
  qed
  have b: "lv_inv (heap s') (opp sd) (levels (opp sd) s')"
    unfolding lvs by (rule lv_inv_frame(1)[OF LV_side[OF inv] len same])
  have b2: "side_slots (heap s') (levels (opp sd) s') = side_slots (heap s) (levels (opp sd) s)"
    unfolding lvs by (rule lv_inv_frame(2)[OF LV_side[OF inv] len same])
  show "lv_inv (heap s') sd' (levels sd' s')"
    using a b side_cases[of sd' sd] by auto
  show "qset s' = (qset s - set (queue_of (heap s) lv)) \<union> set (queue_of (heap s') lv')"
    unfolding qset_opp[of s' sd] qset_opp[of s sd] a2 b2 using disj by blast
qed

lemma queue_subset_qset: "e \<in> set (levels sd s) \<Longrightarrow> set (queue_of (heap s) (snd e)) \<subseteq> qset s"
proof -
  assume "e \<in> set (levels sd s)"
  then have "set (queue_of (heap s) (snd e)) \<subseteq> side_slots (heap s) (levels sd s)"
    unfolding side_slots_def by blast
  with qset_side[of s sd] show ?thesis by blast
qed

lemma qset_iff:
  "p \<in> qset s = (\<exists>sd e. e \<in> set (levels sd s) \<and> p \<in> set (queue_of (heap s) (snd e)))"
proof
  assume "p \<in> qset s"
  then have "p \<in> side_slots (heap s) (levels Buy s) \<or> p \<in> side_slots (heap s) (levels Sell s)"
    by (simp add: qset_def)
  then show "\<exists>sd e. e \<in> set (levels sd s) \<and> p \<in> set (queue_of (heap s) (snd e))"
    unfolding side_slots_def by blast
next
  assume "\<exists>sd e. e \<in> set (levels sd s) \<and> p \<in> set (queue_of (heap s) (snd e))"
  then show "p \<in> qset s" using queue_subset_qset by blast
qed

lemma qset_bound: "LV s \<Longrightarrow> p \<in> qset s \<Longrightarrow> p < length (heap s)"
  unfolding qset_iff using lv_inv_slot(3)[OF LV_side] by blast

lemma LV_frame:
  assumes inv: "LV s" and len: "length (heap s') = length (heap s)"
    and same: "\<And>j. j \<in> qset s \<Longrightarrow> heap s' ! j = heap s ! j"
    and lvs: "\<And>sd. levels sd s' = levels sd s"
  shows "LV s'" and "qset s' = qset s"
    and "\<And>sd e. e \<in> set (levels sd s) \<Longrightarrow> queue_of (heap s') (snd e) = queue_of (heap s) (snd e)"
proof -
  have each: "lv_inv (heap s') sd (levels sd s)
      \<and> side_slots (heap s') (levels sd s) = side_slots (heap s) (levels sd s)
      \<and> (\<forall>e\<in>set (levels sd s). queue_of (heap s') (snd e) = queue_of (heap s) (snd e))" for sd
  proof -
    have same': "heap s' ! j = heap s ! j" if "j \<in> side_slots (heap s) (levels sd s)" for j
      using same qset_side[of s sd] that by blast
    have i: "lv_inv (heap s) sd (levels sd s)" by (rule LV_side[OF inv])
    from lv_inv_frame(1)[OF i len same'] lv_inv_frame(2)[OF i len same']
      lv_inv_frame(3)[OF i len same']
    show ?thesis by blast
  qed
  show "LV s'" unfolding LV_def lvs using each by blast
  show "qset s' = qset s" unfolding qset_def lvs using each by simp
  fix sd e assume "e \<in> set (levels sd s)"
  with each[of sd] show "queue_of (heap s') (snd e) = queue_of (heap s) (snd e)" by simp
qed

lemma nth_levels_mem: "i < length (levels sd s) \<Longrightarrow> (fst (levels sd s ! i), snd (levels sd s ! i)) \<in> set (levels sd s)"
  by simp

lemma levels_set_levels_opp [simp]: "levels (opp sd) (set_levels sd lvs s) = levels (opp sd) s"
  by simp

lemma level_remove_at_unfold:
  assumes "LV s" and i: "i < length (levels sd s)"
  shows "level_remove_at sd i p s =
     set_heap (snd (level_remove_order p (snd (levels sd s ! i), heap s)))
       (set_levels sd (set_level (fst (levels sd s ! i))
           (fst (level_remove_order p (snd (levels sd s ! i), heap s))) (levels sd s)) s)"
proof -
  have "distinct (map fst (levels sd s))"
    using LV_side[OF assms(1), of sd] by (simp add: lv_inv_def sorted_keys_distinct)
  from list_update_set_level[OF this i refl] show ?thesis
    by (simp add: level_remove_at_def Let_def heap_def)
qed

lemma level_remove_at_LV:
  assumes inv: "LV s" and i: "i < length (levels sd s)"
    and pin: "p \<in> set (queue_of (heap s) (snd (levels sd s ! i)))"
  shows "LV (level_remove_at sd i p s)"
    and "qset (level_remove_at sd i p s) = qset s - {p}"
    and "queue_of (heap (level_remove_at sd i p s)) (snd (levels sd (level_remove_at sd i p s) ! i))
           = remove1 p (queue_of (heap s) (snd (levels sd s ! i)))"
proof -
  let ?k = "fst (levels sd s ! i)" and ?lv = "snd (levels sd s ! i)"
  let ?R = "level_remove_order p (?lv, heap s)"
  let ?t = "level_remove_at sd i p s"
  have t: "?t = set_heap (snd ?R) (set_levels sd (set_level ?k (fst ?R) (levels sd s)) s)"
    by (rule level_remove_at_unfold[OF inv i])
  have mem: "(?k, ?lv) \<in> set (levels sd s)" using i by simp
  have ok: "level_ok (heap s) sd (?k, ?lv)"
    using lv_inv_level_ok[OF LV_side[OF inv] mem] .
  note vq = level_okD(1)[OF ok]
  have len: "length (heap ?t) = length (heap s)"
    unfolding t by (simp add: level_remove_order_heap)
  have frame: "heap ?t ! j = heap s ! j" if "j \<notin> set (queue_of (heap s) ?lv)" "j \<notin> {}" for j
  proof -
    have "j \<noteq> p" using that pin by auto
    moreover have "Some j \<noteq> o_prev (heap s ! p)" using valid_queue_links(1)[OF vq pin, of j] that by auto
    moreover have "Some j \<noteq> o_next (heap s ! p)" using valid_queue_links(2)[OF vq pin, of j] that by auto
    ultimately show ?thesis unfolding t by (simp add: level_remove_order_heap)
  qed
  have lvs: "levels sd ?t = set_level ?k (fst ?R) (levels sd s)" "levels (opp sd) ?t = levels (opp sd) s"
    unfolding t by simp_all
  have new: "level_ok (heap ?t) sd (?k, fst ?R)"
    unfolding t using level_ok_remove(1)[OF ok pin] by simp
  have qn: "queue_of (heap ?t) (fst ?R) = remove1 p (queue_of (heap s) ?lv)"
    unfolding t using level_ok_remove(2)[OF ok pin] by simp
  have X: "{} \<inter> qset s = {}" by simp
  have "lv_inv (heap ?t) sd' (levels sd' ?t)" for sd'
    by (rule LV_level_op(1)[OF inv mem len frame X lvs new])
  then show "LV ?t" by (simp add: LV_def)
  have dq: "distinct (queue_of (heap s) ?lv)" using vq by (simp add: valid_queue_def)
  have qin: "set (queue_of (heap s) ?lv) \<subseteq> qset s"
    using queue_subset_qset[OF mem] by simp
  have "qset ?t = (qset s - set (queue_of (heap s) ?lv)) \<union> set (queue_of (heap ?t) (fst ?R))"
    by (rule LV_level_op(2)[OF inv mem len frame X lvs new])
  also have "set (queue_of (heap ?t) (fst ?R)) = set (queue_of (heap s) ?lv) - {p}"
    unfolding qn using dq by (rule set_remove1_eq)
  finally show "qset ?t = qset s - {p}" using qin pin by blast
  have "levels sd ?t ! i = (?k, fst ?R)"
    unfolding lvs using i by (simp add: set_level_def)
  then show "queue_of (heap ?t) (snd (levels sd ?t ! i)) = remove1 p (queue_of (heap s) ?lv)"
    using qn by simp
qed

section \<open>One trade\<close>

lemma remaining_simps [simp]:
  "remaining (x\<lparr>o_status := st\<rparr>) = remaining x"
  "remaining (x\<lparr>o_prev := a\<rparr>) = remaining x"
  "remaining (x\<lparr>o_next := b\<rparr>) = remaining x"
  "remaining (x\<lparr>o_filled_quantity := o_filled_quantity x + q\<rparr>) = remaining x - q"
  by (simp_all add: remaining_def)

lemma LV_distinct_keys: "LV s \<Longrightarrow> distinct (map fst (levels sd s))"
  using LV_side[of s sd] by (simp add: lv_inv_def sorted_keys_distinct)

lemma heap_order_at [simp]: "order_at s p = heap s ! p"
  by (simp add: order_at_def heap_def)

lemma execute_trade_effect:
  assumes inv: "LV s" and mem: "(k, lv) \<in> set (levels sd s)"
    and pin: "p \<in> set (queue_of (heap s) lv)" and ap: "a \<noteq> p"
  shows "heap (fst (execute_trade a p qty (s, r))) =
           (heap s)[a := (heap s ! a)\<lparr>o_filled_quantity := o_filled_quantity (heap s ! a) + qty\<rparr>,
                    p := (heap s ! p)\<lparr>o_filled_quantity := o_filled_quantity (heap s ! p) + qty\<rparr>]"
    and "levels sd (fst (execute_trade a p qty (s, r))) =
           set_level k (lv\<lparr>l_total_quantity := l_total_quantity lv - qty\<rparr>) (levels sd s)"
    and "levels (opp sd) (fst (execute_trade a p qty (s, r))) = levels (opp sd) s"
    and "orders (fst (execute_trade a p qty (s, r))) = orders s"
    and "pool_free_stack (pool (fst (execute_trade a p qty (s, r)))) = pool_free_stack (pool s)"
    and "pool_free_count (pool (fst (execute_trade a p qty (s, r)))) = pool_free_count (pool s)"
    and "pool_capacity (pool (fst (execute_trade a p qty (s, r)))) = pool_capacity (pool s)"
    and "next_id (fst (execute_trade a p qty (s, r))) = next_id s"
    and "timestamp_counter (fst (execute_trade a p qty (s, r))) = timestamp_counter s"
proof -
  have sp: "o_side (heap s ! p) = sd" "o_price (heap s ! p) = k" "p < length (heap s)"
    and mo: "map_of (levels sd s) k = Some lv"
    using lv_inv_slot[OF LV_side[OF inv] mem] pin by auto
  note upd = update_set_level[OF LV_distinct_keys[OF inv] mo]
  show "heap (fst (execute_trade a p qty (s, r))) =
           (heap s)[a := (heap s ! a)\<lparr>o_filled_quantity := o_filled_quantity (heap s ! a) + qty\<rparr>,
                    p := (heap s ! p)\<lparr>o_filled_quantity := o_filled_quantity (heap s ! p) + qty\<rparr>]"
    using sp mo ap by (simp add: execute_trade_def Let_def nth_upd upd)
  show "levels sd (fst (execute_trade a p qty (s, r))) =
           set_level k (lv\<lparr>l_total_quantity := l_total_quantity lv - qty\<rparr>) (levels sd s)"
    using sp mo ap by (simp add: execute_trade_def Let_def nth_upd upd)
  show "levels (opp sd) (fst (execute_trade a p qty (s, r))) = levels (opp sd) s"
    using sp mo ap by (simp add: execute_trade_def Let_def nth_upd upd)
  show "orders (fst (execute_trade a p qty (s, r))) = orders s"
    using sp mo ap by (simp add: execute_trade_def Let_def nth_upd upd)
  show "pool_free_stack (pool (fst (execute_trade a p qty (s, r)))) = pool_free_stack (pool s)"
    using sp mo ap by (simp add: execute_trade_def Let_def nth_upd upd)
  show "pool_free_count (pool (fst (execute_trade a p qty (s, r)))) = pool_free_count (pool s)"
    using sp mo ap by (simp add: execute_trade_def Let_def nth_upd upd)
  show "pool_capacity (pool (fst (execute_trade a p qty (s, r)))) = pool_capacity (pool s)"
    using sp mo ap by (simp add: execute_trade_def Let_def nth_upd upd)
  show "next_id (fst (execute_trade a p qty (s, r))) = next_id s"
    using sp mo ap by (simp add: execute_trade_def Let_def nth_upd upd)
  show "timestamp_counter (fst (execute_trade a p qty (s, r))) = timestamp_counter s"
    using sp mo ap by (simp add: execute_trade_def Let_def nth_upd upd)
qed

lemma pool_ok_cong:
  "pool_free_stack pl' = pool_free_stack pl \<Longrightarrow> pool_free_count pl' = pool_free_count pl
   \<Longrightarrow> pool_capacity pl' = pool_capacity pl \<Longrightarrow> pool_ok n pl' Q = pool_ok n pl Q"
  by (simp add: pool_ok_def)

lemma pool_set_heap [simp]: "pool (set_heap h s) = (pool s)\<lparr>pool_orders := h\<rparr>"
  by (simp add: set_heap_def)

lemma pool_upd_order [simp]:
  "pool (upd_order p f s) = (pool s)\<lparr>pool_orders := (heap s)[p := f (heap s ! p)]\<rparr>"
  by (simp add: upd_order_def heap_def order_at_def)


lemma execute_trade_core:
  assumes inv: "cinv X s" and mem: "(k, lv) \<in> set (levels sd s)"
    and pin: "p \<in> set (queue_of (heap s) lv)" and aX: "a \<in> X"
  shows "cinv X (fst (execute_trade a p qty (s, r)))"
    and "qset (fst (execute_trade a p qty (s, r))) = qset s"
    and "queue_of (heap (fst (execute_trade a p qty (s, r))))
           (lv\<lparr>l_total_quantity := l_total_quantity lv - qty\<rparr>) = queue_of (heap s) lv"
proof -
  let ?s' = "fst (execute_trade a p qty (s, r))"
  let ?lv' = "lv\<lparr>l_total_quantity := l_total_quantity lv - qty\<rparr>"
  from inv have LVs: "LV s" and io: "idx_ok (heap s) (orders s) (qset s)"
    and po: "pool_ok (length (heap s)) (pool s) (X \<union> qset s)"
    and Xq: "X \<inter> qset s = {}" and Xb: "\<forall>x\<in>X. x < length (heap s)"
    by (simp_all add: cinv_def)
  from aX Xq have aq: "a \<notin> qset s" by auto
  have qin: "set (queue_of (heap s) lv) \<subseteq> qset s" using queue_subset_qset[OF mem] by simp
  with pin aq have ap: "a \<noteq> p" by auto
  note eff = execute_trade_effect[OF LVs mem pin ap, of qty r]
  have pl: "p < length (heap s)" using qset_bound[OF LVs] qin pin by auto
  have len: "length (heap ?s') = length (heap s)" by (simp add: eff)
  have frame: "heap ?s' ! j = heap s ! j" if "j \<notin> set (queue_of (heap s) lv)" "j \<notin> {a}" for j
    using that pin by (auto simp: eff nth_upd)
  have X: "{a} \<inter> qset s = {}" using aq by simp
  have ok: "level_ok (heap s) sd (k, lv)" using lv_inv_level_ok[OF LV_side[OF LVs] mem] .
  have links: "o_prev (heap ?s' ! j) = o_prev (heap s ! j) \<and> o_next (heap ?s' ! j) = o_next (heap s ! j)
      \<and> o_side (heap ?s' ! j) = o_side (heap s ! j) \<and> o_price (heap ?s' ! j) = o_price (heap s ! j)" for j
    by (simp add: eff nth_upd)
  have rem: "remaining (heap ?s' ! j) = remaining (heap s ! j)"
    if "j \<in> set (queue_of (heap s) lv)" "j \<noteq> p" for j
    using that qin aq by (auto simp: eff nth_upd)
  have tot: "l_total_quantity ?lv' = l_total_quantity lv - remaining (heap s ! p) + remaining (heap ?s' ! p)"
    using ap pl by (simp add: eff nth_upd)
  have new: "level_ok (heap ?s') sd (k, ?lv')"
    by (rule level_ok_adjust(1)[OF ok pin len links rem _ _ _ tot]) simp_all
  show qn: "queue_of (heap ?s') ?lv' = queue_of (heap s) lv"
    by (rule level_ok_adjust(2)[OF ok pin len links rem _ _ _ tot]) simp_all
  have "lv_inv (heap ?s') sd' (levels sd' ?s')" for sd'
    by (rule LV_level_op(1)[OF LVs mem len frame X eff(2) eff(3) new])
  then have LV': "LV ?s'" by (simp add: LV_def)
  have "qset ?s' = (qset s - set (queue_of (heap s) lv)) \<union> set (queue_of (heap ?s') ?lv')"
    by (rule LV_level_op(2)[OF LVs mem len frame X eff(2) eff(3) new])
  then show qs: "qset ?s' = qset s" unfolding qn using qin by blast
  have io': "idx_ok (heap ?s') (orders ?s') (qset ?s')"
    unfolding qs eff(4) by (rule idx_ok_frame[OF io]) (auto simp: eff nth_upd)
  have po': "pool_ok (length (heap ?s')) (pool ?s') (X \<union> qset ?s')"
    unfolding qs len using po pool_ok_cong[OF eff(5) eff(6) eff(7)] by simp
  show "cinv X ?s'" using LV' io' po' Xq Xb qs len by (simp add: cinv_def)
qed

lemma level_remove_at_effect:
  assumes inv: "LV s" and i: "i < length (levels sd s)"
  shows "orders (level_remove_at sd i p s) = orders s"
    and "pool (level_remove_at sd i p s) = (pool s)\<lparr>pool_orders := heap (level_remove_at sd i p s)\<rparr>"
    and "data (heap (level_remove_at sd i p s) ! j) = data (heap s ! j)"
    and "length (heap (level_remove_at sd i p s)) = length (heap s)"
    and "map fst (levels sd' (level_remove_at sd i p s)) = map fst (levels sd' s)"
    and "levels (opp sd) (level_remove_at sd i p s) = levels (opp sd) s"
    and "next_id (level_remove_at sd i p s) = next_id s"
    and "timestamp_counter (level_remove_at sd i p s) = timestamp_counter s"
    and "trade_count (level_remove_at sd i p s) = trade_count s"
    and "total_volume (level_remove_at sd i p s) = total_volume s"
  unfolding level_remove_at_unfold[OF inv i]
  using side_cases[of sd' sd]
  by (auto simp: level_remove_order_heap)

lemma deallocate_free_slots:
  assumes ok: "pool_ok n pl Q" and pn: "p < n"
    and nf: "p \<notin> set (take (pool_free_count pl) (pool_free_stack pl))"
  shows "take (pool_free_count (deallocate p pl)) (pool_free_stack (deallocate p pl))
           = take (pool_free_count pl) (pool_free_stack pl) @ [p]"
proof -
  let ?fs = "pool_free_stack pl" and ?fc = "pool_free_count pl"
  from ok have cap: "n = pool_capacity pl" "length ?fs = pool_capacity pl"
    and dist: "distinct (take ?fc ?fs)"
    and bnd: "\<forall>i\<in>set (take ?fc ?fs). i < pool_capacity pl"
    by (auto simp: pool_ok_def)
  have "distinct (p # take ?fc ?fs)" using dist nf by simp
  moreover have "\<forall>i\<in>set (p # take ?fc ?fs). i < n" using bnd pn cap by auto
  ultimately have "length (p # take ?fc ?fs) \<le> n" by (rule distinct_bounded_length)
  then have lt: "?fc < length ?fs" using cap by simp
  then show ?thesis by (simp add: deallocate_def take_Suc_conv_app_nth)
qed

lemma retire_passive_effect:
  assumes inv: "LV s" and i: "i < length (levels sd s)"
  shows "orders (retire_passive sd i p s) = AList.delete (o_id (heap s ! p)) (orders s)"
    and "heap (retire_passive sd i p s)
           = (heap (level_remove_at sd i p s))[p := (heap (level_remove_at sd i p s) ! p)\<lparr>o_status := Filled\<rparr>]"
    and "levels sd' (retire_passive sd i p s) = levels sd' (level_remove_at sd i p s)"
    and "pool_free_stack (pool (retire_passive sd i p s)) = pool_free_stack (deallocate p (pool s))"
    and "pool_free_count (pool (retire_passive sd i p s)) = pool_free_count (deallocate p (pool s))"
    and "pool_capacity (pool (retire_passive sd i p s)) = pool_capacity (pool s)"
    and "next_id (retire_passive sd i p s) = next_id s"
    and "timestamp_counter (retire_passive sd i p s) = timestamp_counter s"
    and "trade_count (retire_passive sd i p s) = trade_count s"
    and "total_volume (retire_passive sd i p s) = total_volume s"
  using data_fields[OF level_remove_at_effect(3)[OF inv i, of p p]]
  by (simp_all add: retire_passive_def Let_def level_remove_at_effect[OF inv i] deallocate_def)

lemma retire_passive_core:
  assumes inv: "cinv X s" and i: "i < length (levels sd s)"
    and pin: "p \<in> set (queue_of (heap s) (snd (levels sd s ! i)))"
  shows "cinv X (retire_passive sd i p s)"
    and "qset (retire_passive sd i p s) = qset s - {p}"
    and "queue_of (heap (retire_passive sd i p s)) (snd (levels sd (retire_passive sd i p s) ! i))
           = remove1 p (queue_of (heap s) (snd (levels sd s ! i)))"
proof -
  let ?t = "level_remove_at sd i p s"
  let ?u = "retire_passive sd i p s"
  from inv have LVs: "LV s" and io: "idx_ok (heap s) (orders s) (qset s)"
    and po: "pool_ok (length (heap s)) (pool s) (X \<union> qset s)"
    and Xq: "X \<inter> qset s = {}" and Xb: "\<forall>x\<in>X. x < length (heap s)"
    by (simp_all add: cinv_def)
  note t = level_remove_at_LV[OF LVs i pin]
  note te = level_remove_at_effect[OF LVs i, where p = p]
  note ue = retire_passive_effect[OF LVs i, where p = p]
  have pq: "p \<in> qset s" using queue_subset_qset[OF nth_mem[OF i]] pin by auto
  have pl: "p < length (heap s)" using qset_bound[OF LVs pq] .
  have idp: "o_id (heap ?t ! j) = o_id (heap s ! j)" for j using data_fields[OF te(3)[of j]] by simp
  have len: "length (heap ?u) = length (heap ?t)" by (simp add: ue)
  have same: "heap ?u ! j = heap ?t ! j" if "j \<in> qset ?t" for j
    using that t(2) by (auto simp: ue nth_upd)
  have a: "LV ?u" by (rule LV_frame(1)[OF t(1) len same ue(3)])
  show q: "qset ?u = qset s - {p}" using LV_frame(2)[OF t(1) len same ue(3)] t(2) by simp
  have del: "idx_ok (heap s) (AList.delete (o_id (heap s ! p)) (orders s)) (qset s - {p})"
    by (rule idx_ok_delete[OF io refl])
  have b: "idx_ok (heap ?u) (orders ?u) (qset ?u)"
    unfolding q ue(1)
    by (rule idx_ok_frame[OF del]) (auto simp: ue idp nth_upd)
  have "pool_ok (length (heap s)) (pool s) (X \<union> (qset s - {p}))"
    by (rule pool_ok_mono[OF po]) auto
  moreover have "p \<notin> set (take (pool_free_count (pool s)) (pool_free_stack (pool s)))"
    using po pq by (auto simp: pool_ok_def)
  moreover have "p \<notin> X \<union> (qset s - {p})" using Xq pq by auto
  ultimately have "pool_ok (length (heap s)) (deallocate p (pool s)) (X \<union> (qset s - {p}))"
    using pl by (intro pool_ok_deallocate)
  then have c: "pool_ok (length (heap ?u)) (pool ?u) (X \<union> qset ?u)"
    unfolding q len te(4)
    using pool_ok_cong[OF ue(4) ue(5), of "length (heap s)" "X \<union> (qset s - {p})"] ue(6)
    by (simp add: deallocate_def)
  show "cinv X ?u" using a b c Xq Xb q len te(4) by (auto simp: cinv_def)
  have "levels sd ?t ! i \<in> set (levels sd ?t)"
    using i te(5)[of sd] by (metis length_map nth_mem)
  from LV_frame(3)[OF t(1) len same ue(3) this] t(3) ue(3)
  show "queue_of (heap ?u) (snd (levels sd ?u ! i)) = remove1 p (queue_of (heap s) (snd (levels sd s ! i)))"
    by simp
qed

section \<open>One step of the inner matching loop\<close>

lemma set_level_nth:
  "i < length lvs \<Longrightarrow> set_level k v lvs ! i = (if fst (lvs ! i) = k then (k, v) else lvs ! i)"
  by (simp add: set_level_def)

lemma set_level_nth_other:
  assumes "distinct (map fst lvs)" and "i < length lvs" and "j < length lvs" and "j \<noteq> i"
    and "fst (lvs ! i) = k"
  shows "set_level k v lvs ! j = lvs ! j"
proof -
  have "fst (lvs ! j) \<noteq> fst (lvs ! i)"
    using assms(1-4) nth_eq_iff_index_eq[of "map fst lvs" j i] by simp
  then show ?thesis using assms by (simp add: set_level_nth)
qed

lemma others_nonempty_cong:
  assumes "others_nonempty sd i s"
    and "\<And>sd'. length (levels sd' s') = length (levels sd' s)"
    and "\<And>sd' j. (sd', j) \<noteq> (sd, i) \<Longrightarrow> j < length (levels sd' s)
            \<Longrightarrow> l_head (snd (levels sd' s' ! j)) = l_head (snd (levels sd' s ! j))"
  shows "others_nonempty sd i s'"
  using assms unfolding others_nonempty_def level_empty_def by auto

lemma match_step_unfold:
  "fst (match_step sd i a p (s, r)) =
     (let s1 = fst (execute_trade a p (min (remaining (heap s ! a)) (remaining (heap s ! p))) (s, r))
      in if is_filled (heap s1 ! p) then retire_passive sd i p s1 else s1)"
  "snd (match_step sd i a p (s, r)) =
     snd (execute_trade a p (min (remaining (heap s ! a)) (remaining (heap s ! p))) (s, r))"
  by (simp_all add: match_step_def Let_def)

lemma fill_progress:
  fixes fa qa fp qp :: "64 word"
  assumes "\<not> qp \<le> fp + min (qa - fa) (qp - fp)"
  shows "qa - (fa + min (qa - fa) (qp - fp)) = 0"
proof (cases "qa - fa \<le> qp - fp")
  case True
  then show ?thesis by (simp add: min_def)
next
  case False
  then have "min (qa - fa) (qp - fp) = qp - fp" by (simp add: min_def)
  with assms show ?thesis by simp
qed

lemma match_step_inv:
  assumes inv: "match_inv sd i a s" and hd: "l_head (level_at sd i s) = Some p"
  shows "match_inv sd i a (fst (match_step sd i a p (s, r)))"
    and "remaining (heap (fst (match_step sd i a p (s, r))) ! a) = 0
         \<or> (queue_at sd i (fst (match_step sd i a p (s, r))) = tl (queue_at sd i s)
            \<and> l_head (level_at sd i (fst (match_step sd i a p (s, r)))) = o_next (heap s ! p))"
    and "length (queue_at sd i (fst (match_step sd i a p (s, r)))) \<le> length (queue_at sd i s)"
    and "queue_at sd i s \<noteq> []"
proof -
  let ?k = "fst (levels sd s ! i)" and ?lv = "snd (levels sd s ! i)"
  let ?qty = "min (remaining (heap s ! a)) (remaining (heap s ! p))"
  let ?s1 = "fst (execute_trade a p ?qty (s, r))"
  let ?lv' = "?lv\<lparr>l_total_quantity := l_total_quantity ?lv - ?qty\<rparr>"
  let ?s' = "fst (match_step sd i a p (s, r))"
  from inv have ci: "cinv {a} s" and i: "i < length (levels sd s)" and on: "others_nonempty sd i s"
    by (simp_all add: match_inv_def)
  from ci have LVs: "LV s" and aq: "a \<notin> qset s" by (simp_all add: cinv_def)
  have mem: "(?k, ?lv) \<in> set (levels sd s)" using i by simp
  have ok: "level_ok (heap s) sd (?k, ?lv)" using lv_inv_level_ok[OF LV_side[OF LVs] mem] .
  note vq = level_okD(1)[OF ok]
  from level_head[OF vq] hd obtain rest where q: "queue_of (heap s) ?lv = p # rest"
    by (auto simp: level_at_def split: list.splits)
  then have pin: "p \<in> set (queue_of (heap s) ?lv)" by simp
  show "queue_at sd i s \<noteq> []" using q by (simp add: queue_at_def)
  have ap: "a \<noteq> p" using pin queue_subset_qset[OF mem] aq by auto
  have nx: "o_next (heap s ! p) = (case rest of [] \<Rightarrow> None | x # _ \<Rightarrow> Some x)"
    using vq unfolding q valid_queue_def by (cases rest) auto
  note eff = execute_trade_effect[OF LVs mem pin ap, of ?qty r]
  note c1 = execute_trade_core[OF ci mem pin, of a ?qty r, simplified]
  have dk: "distinct (map fst (levels sd s))" by (rule LV_distinct_keys[OF LVs])
  have l1: "levels sd ?s1 ! i = (?k, ?lv')" using i by (simp add: eff set_level_nth)
  have len1: "length (levels sd' ?s1) = length (levels sd' s)" for sd'
    using side_cases[of sd' sd] by (auto simp: eff)
  have oth1: "levels sd' ?s1 ! j = levels sd' s ! j"
    if "(sd', j) \<noteq> (sd, i)" "j < length (levels sd' s)" for sd' j
    using side_cases[of sd' sd] that set_level_nth_other[OF dk i _ _ refl]
    by (auto simp: eff)
  have on1: "others_nonempty sd i ?s1"
    by (rule others_nonempty_cong[OF on len1]) (simp add: oth1)
  have i1: "i < length (levels sd ?s1)" using i len1 by simp
  have q1: "queue_at sd i ?s1 = p # rest"
    using c1(3) q by (simp add: queue_at_def l1)
  have mi1: "match_inv sd i a ?s1" using c1(1) i1 on1 by (simp add: match_inv_def)
  have LV1: "LV ?s1" using c1(1) by (simp add: cinv_def)
  have main: "match_inv sd i a ?s'
    \<and> (remaining (heap ?s' ! a) = 0
         \<or> (queue_at sd i ?s' = tl (queue_at sd i s) \<and> l_head (level_at sd i ?s') = o_next (heap s ! p)))
    \<and> length (queue_at sd i ?s') \<le> length (queue_at sd i s)"
  proof (cases "is_filled (heap ?s1 ! p)")
    case False
    then have s': "?s' = ?s1" by (simp add: match_step_unfold Let_def)
    have pl: "p < length (heap s)" using qset_bound[OF LVs] queue_subset_qset[OF mem] pin by auto
    have al: "a < length (heap s)" using ci by (simp add: cinv_def)
    have hp: "heap ?s1 ! p = (heap s ! p)\<lparr>o_filled_quantity := o_filled_quantity (heap s ! p) + ?qty\<rparr>"
      and ha: "heap ?s1 ! a = (heap s ! a)\<lparr>o_filled_quantity := o_filled_quantity (heap s ! a) + ?qty\<rparr>"
      using ap pl al by (simp_all add: eff nth_upd)
    from False have "remaining (heap ?s1 ! a) = 0"
      unfolding hp ha
      using fill_progress[of "o_quantity (heap s ! p)" "o_filled_quantity (heap s ! p)"
          "o_quantity (heap s ! a)" "o_filled_quantity (heap s ! a)"]
      by (simp add: is_filled_def remaining_def)
    then show ?thesis
      unfolding s' q1 using mi1 q by (simp add: queue_at_def)
  next
    case True
    then have s': "?s' = retire_passive sd i p ?s1" by (simp add: match_step_unfold Let_def)
    have pin1: "p \<in> set (queue_of (heap ?s1) (snd (levels sd ?s1 ! i)))"
      using q1 by (simp add: queue_at_def)
    note r = retire_passive_core[OF c1(1) i1 pin1]
    note re = retire_passive_effect[OF LV1 i1, where p = p]
    note te = level_remove_at_effect[OF LV1 i1, where p = p]
    have dk1: "distinct (map fst (levels sd ?s1))" by (rule LV_distinct_keys[OF LV1])
    have lenr: "length (levels sd' (retire_passive sd i p ?s1)) = length (levels sd' ?s1)" for sd'
      unfolding re using te(5)[of sd'] by (metis length_map)
    have othr: "levels sd' (retire_passive sd i p ?s1) ! j = levels sd' ?s1 ! j"
      if "(sd', j) \<noteq> (sd, i)" "j < length (levels sd' ?s1)" for sd' j
      unfolding re level_remove_at_unfold[OF LV1 i1]
      using side_cases[of sd' sd] that set_level_nth_other[OF dk1 i1 _ _ refl]
      by auto
    have onr: "others_nonempty sd i (retire_passive sd i p ?s1)"
      by (rule others_nonempty_cong[OF on1 lenr]) (simp add: othr)
    have mir: "match_inv sd i a ?s'"
      unfolding s' using r(1) onr i1 lenr by (simp add: match_inv_def)
    have qr: "queue_at sd i ?s' = rest"
      unfolding s' using r(3) q1 by (simp add: queue_at_def)
    have LVr: "LV ?s'" unfolding s' using r(1) by (simp add: cinv_def)
    have ir: "i < length (levels sd ?s')" unfolding s' using i1 lenr by simp
    have "level_ok (heap ?s') sd (levels sd ?s' ! i)"
      using lv_inv_level_ok[OF LV_side[OF LVr] nth_mem[OF ir]] .
    then have "valid_queue (heap ?s') (snd (levels sd ?s' ! i)) (queue_at sd i ?s')"
      unfolding queue_at_def by (rule level_ok_valid)
    from level_head[OF this] have "l_head (level_at sd i ?s') = o_next (heap s ! p)"
      unfolding qr nx by (simp add: level_at_def)
    then show ?thesis
      using mir qr q by (simp add: queue_at_def)
  qed
  from main show "match_inv sd i a ?s'" by blast
  from main show "remaining (heap ?s' ! a) = 0
         \<or> (queue_at sd i ?s' = tl (queue_at sd i s) \<and> l_head (level_at sd i ?s') = o_next (heap s ! p))"
    by blast
  from main show "length (queue_at sd i ?s') \<le> length (queue_at sd i s)" by blast
qed

section \<open>The inner matching loop\<close>

lemma match_level_None: "match_level sd i a None sr = Some sr"
  by (subst match_level.simps) simp

lemma match_level_Some:
  "match_level sd i a (Some p) sr =
     (if 0 < remaining (heap (fst sr) ! a)
      then match_level sd i a (o_next (heap (fst sr) ! p)) (match_step sd i a p sr)
      else Some sr)"
  by (subst match_level.simps) (simp add: Let_def)

lemma match_level_rule:
  assumes "I pv sr"
    and step: "\<And>p sr. I (Some p) sr \<Longrightarrow> 0 < remaining (heap (fst sr) ! a) \<Longrightarrow>
                 I (o_next (heap (fst sr) ! p)) (match_step sd i a p sr)
                 \<and> V (match_step sd i a p sr) < (V sr :: nat)"
  shows "\<exists>sr'. match_level sd i a pv sr = Some sr'
           \<and> (\<exists>ps. I ps sr' \<and> (ps = None \<or> \<not> 0 < remaining (heap (fst sr') ! a)))"
  using assms(1)
proof (induct sr arbitrary: pv rule: measure_induct_rule[of V])
  case (less sr)
  show ?case
  proof (cases pv)
    case None
    with less.prems show ?thesis by (auto simp: match_level_None)
  next
    case (Some p)
    show ?thesis
    proof (cases "0 < remaining (heap (fst sr) ! a)")
      case True
      from step[OF less.prems[unfolded Some] True]
      have I': "I (o_next (heap (fst sr) ! p)) (match_step sd i a p sr)"
        and V': "V (match_step sd i a p sr) < V sr" by auto
      from less.hyps[OF V' I'] show ?thesis
        unfolding Some match_level_Some using True by simp
    next
      case False
      with less.prems show ?thesis unfolding Some match_level_Some by auto
    qed
  qed
qed

lemma match_level_inv:
  assumes inv: "match_inv sd i a s"
  shows "\<exists>s' r'. match_level sd i a (level_front (level_at sd i s)) (s, r) = Some (s', r')
           \<and> match_inv sd i a s'
           \<and> (remaining (heap s' ! a) = 0 \<or> level_empty (level_at sd i s'))"
proof -
  define I where "I = (\<lambda>passive (sr :: book \<times> order_result).
      match_inv sd i a (fst sr)
      \<and> (0 < remaining (heap (fst sr) ! a) \<longrightarrow> passive = l_head (level_at sd i (fst sr))))"
  define V where "V = (\<lambda>sr :: book \<times> order_result.
      length (queue_at sd i (fst sr)) + (if 0 < remaining (heap (fst sr) ! a) then 1 else 0))"
  have I0: "I (level_front (level_at sd i s)) (s, r)"
    using inv by (simp add: I_def level_front_def)
  have step: "I (o_next (heap (fst sr) ! p)) (match_step sd i a p sr)
                 \<and> V (match_step sd i a p sr) < V sr"
    if "I (Some p) sr" "0 < remaining (heap (fst sr) ! a)" for p sr
  proof -
    obtain t u where sr: "sr = (t, u)" by (cases sr)
    from that have mi: "match_inv sd i a t" and hd: "l_head (level_at sd i t) = Some p"
      and pos: "0 < remaining (heap t ! a)"
      by (simp_all add: I_def sr)
    note st = match_step_inv(1-3)[OF mi hd, of u] match_step_inv(4)[OF mi hd]
    let ?t' = "fst (match_step sd i a p (t, u))"
    from st(2) st(4) have "V (match_step sd i a p sr) < V sr"
      unfolding V_def sr using pos st(3) by (cases "queue_at sd i t") auto
    moreover have "I (o_next (heap t ! p)) (match_step sd i a p (t, u))"
      unfolding I_def using st(1) st(2) by auto
    ultimately show ?thesis by (simp add: sr)
  qed
  from match_level_rule[of I, OF I0 step]
  obtain sr' ps where res: "match_level sd i a (level_front (level_at sd i s)) (s, r) = Some sr'"
    and I': "I ps sr'" and ex: "ps = None \<or> \<not> 0 < remaining (heap (fst sr') ! a)"
    by blast
  have "remaining (heap (fst sr') ! a) = 0 \<or> level_empty (level_at sd i (fst sr'))"
    using I' ex unfolding I_def level_empty_def by (auto simp: word_greater_zero_iff)
  with res I' show ?thesis unfolding I_def by (cases sr') auto
qed

section \<open>The outer matching loops\<close>

lemma match_against_asks_unfold:
  "match_against_asks it a sr =
     (if it < length (asks (fst sr)) \<and> 0 < remaining (heap (fst sr) ! a) then
        (if asks_stop it a sr then Some sr
         else case match_level Sell it a (level_front (level_at Sell it (fst sr))) sr of
                None \<Rightarrow> None
              | Some sr1 \<Rightarrow> match_against_asks (fst (asks_next it sr1)) a (snd (asks_next it sr1)))
      else Some sr)"
  by (subst match_against_asks.simps) (simp add: asks_stop_def asks_next_def split: option.splits)

lemma match_against_bids_unfold:
  "match_against_bids rit a sr =
     (if rit < length (bids (fst sr)) \<and> 0 < remaining (heap (fst sr) ! a) then
        (if bids_stop rit a sr then Some sr
         else case match_level Buy (length (bids (fst sr)) - 1 - rit) a
                     (level_front (level_at Buy (length (bids (fst sr)) - 1 - rit) (fst sr))) sr of
                None \<Rightarrow> None
              | Some sr1 \<Rightarrow>
                  match_against_bids (fst (bids_next rit (length (bids (fst sr)) - 1 - rit) sr1)) a
                    (snd (bids_next rit (length (bids (fst sr)) - 1 - rit) sr1)))
      else Some sr)"
  by (subst match_against_bids.simps)
     (simp add: bids_stop_def bids_next_def Let_def split: option.splits)

lemma match_against_asks_rule:
  assumes "I (fst x) (snd x)"
    and step: "\<And>it sr. I it sr \<Longrightarrow> it < length (asks (fst sr)) \<Longrightarrow> 0 < remaining (heap (fst sr) ! a)
        \<Longrightarrow> \<not> asks_stop it a sr \<Longrightarrow>
        \<exists>sr1. match_level Sell it a (level_front (level_at Sell it (fst sr))) sr = Some sr1
          \<and> I (fst (asks_next it sr1)) (snd (asks_next it sr1))
          \<and> V (asks_next it sr1) < (V (it, sr) :: nat)"
  shows "\<exists>sr'. match_against_asks (fst x) a (snd x) = Some sr'
           \<and> (\<exists>it'. I it' sr'
                \<and> \<not> (it' < length (asks (fst sr')) \<and> 0 < remaining (heap (fst sr') ! a)
                      \<and> \<not> asks_stop it' a sr'))"
  using assms(1)
proof (induct x rule: measure_induct_rule[of V])
  case (less x)
  obtain it sr where x: "x = (it, sr)" by (cases x)
  show ?case
  proof (cases "it < length (asks (fst sr)) \<and> 0 < remaining (heap (fst sr) ! a) \<and> \<not> asks_stop it a sr")
    case True
    with step[of it sr] less.prems x obtain sr1 where
      m: "match_level Sell it a (level_front (level_at Sell it (fst sr))) sr = Some sr1"
      and I': "I (fst (asks_next it sr1)) (snd (asks_next it sr1))"
      and V': "V (asks_next it sr1) < V (it, sr)" by auto
    from less.hyps[of "asks_next it sr1"] V' I' x
    show ?thesis
      unfolding x fst_conv snd_conv
      by (subst match_against_asks_unfold) (use True m in simp)
  next
    case False
    then have "match_against_asks it a sr = Some sr"
      by (subst match_against_asks_unfold) auto
    with False less.prems show ?thesis unfolding x by auto
  qed
qed

lemma match_against_bids_rule:
  assumes "I (fst x) (snd x)"
    and step: "\<And>rit sr. I rit sr \<Longrightarrow> rit < length (bids (fst sr)) \<Longrightarrow> 0 < remaining (heap (fst sr) ! a)
        \<Longrightarrow> \<not> bids_stop rit a sr \<Longrightarrow>
        \<exists>sr1. match_level Buy (length (bids (fst sr)) - 1 - rit) a
                 (level_front (level_at Buy (length (bids (fst sr)) - 1 - rit) (fst sr))) sr = Some sr1
          \<and> I (fst (bids_next rit (length (bids (fst sr)) - 1 - rit) sr1))
               (snd (bids_next rit (length (bids (fst sr)) - 1 - rit) sr1))
          \<and> V (bids_next rit (length (bids (fst sr)) - 1 - rit) sr1) < (V (rit, sr) :: nat)"
  shows "\<exists>sr'. match_against_bids (fst x) a (snd x) = Some sr'
           \<and> (\<exists>rit'. I rit' sr'
                \<and> \<not> (rit' < length (bids (fst sr')) \<and> 0 < remaining (heap (fst sr') ! a)
                      \<and> \<not> bids_stop rit' a sr'))"
  using assms(1)
proof (induct x rule: measure_induct_rule[of V])
  case (less x)
  obtain rit sr where x: "x = (rit, sr)" by (cases x)
  let ?i = "length (bids (fst sr)) - 1 - rit"
  show ?case
  proof (cases "rit < length (bids (fst sr)) \<and> 0 < remaining (heap (fst sr) ! a) \<and> \<not> bids_stop rit a sr")
    case True
    with step[of rit sr] less.prems x obtain sr1 where
      m: "match_level Buy ?i a (level_front (level_at Buy ?i (fst sr))) sr = Some sr1"
      and I': "I (fst (bids_next rit ?i sr1)) (snd (bids_next rit ?i sr1))"
      and V': "V (bids_next rit ?i sr1) < V (rit, sr)" by auto
    from less.hyps[of "bids_next rit ?i sr1"] V' I' x
    show ?thesis
      unfolding x fst_conv snd_conv
      by (subst match_against_bids_unfold) (use True m in simp)
  next
    case False
    then have "match_against_bids rit a sr = Some sr"
      by (subst match_against_bids_unfold) auto
    with False less.prems show ?thesis unfolding x by auto
  qed
qed

section \<open>Erasing an empty level\<close>

lemma erase_at_delete:
  "distinct (map fst lvs) \<Longrightarrow> i < length lvs \<Longrightarrow> erase_at i lvs = AList.delete (fst (lvs ! i)) lvs"
proof (induction lvs arbitrary: i)
  case Nil
  then show ?case by simp
next
  case (Cons e lvs)
  show ?case
  proof (cases i)
    case 0
    with Cons.prems have "fst e \<notin> fst ` set lvs" by auto
    then have "AList.delete (fst e) lvs = lvs" by (rule delete_id)
    with 0 show ?thesis by (cases e) (simp add: erase_at_def)
  next
    case (Suc j)
    with Cons.prems have j: "j < length lvs" by simp
    then have "fst (lvs ! j) \<in> fst ` set lvs" by (metis image_eqI nth_mem)
    moreover from Cons.prems(1) have "fst e \<notin> fst ` set lvs" by simp
    ultimately have ne: "fst e \<noteq> fst (lvs ! j)" by metis
    from Cons.IH[OF _ j] Cons.prems(1) have "erase_at j lvs = AList.delete (fst (lvs ! j)) lvs" by simp
    with Suc ne show ?thesis by (cases e) (simp add: erase_at_def)
  qed
qed

lemma lv_inv_delete: "lv_inv h sd lvs \<Longrightarrow> lv_inv h sd (AList.delete k lvs)"
  unfolding lv_inv_def
  by (auto simp: delete_keys removeAll_filter_not_eq sorted_wrt_filter list_all_iff set_alist_delete)

lemma side_slots_delete:
  assumes "(k, lv) \<in> set lvs" and "distinct (map fst lvs)" and "queue_of h lv = []"
  shows "side_slots h (AList.delete k lvs) = side_slots h lvs"
proof (rule set_eqI, rule iffI)
  fix x assume "x \<in> side_slots h (AList.delete k lvs)"
  then obtain e where "e \<in> set (AList.delete k lvs)" "x \<in> set (queue_of h (snd e))"
    unfolding side_slots_def by blast
  then show "x \<in> side_slots h lvs"
    unfolding side_slots_def set_alist_delete by blast
next
  fix x assume "x \<in> side_slots h lvs"
  then obtain e where e: "e \<in> set lvs" "x \<in> set (queue_of h (snd e))"
    unfolding side_slots_def by blast
  have "fst e \<noteq> k"
  proof
    assume k: "fst e = k"
    with e(1) have "(k, snd e) \<in> set lvs" by (cases e) auto
    from eq_key_imp_eq_value[OF assms(2) this assms(1)] e(2) assms(3) show False by simp
  qed
  with e have "e \<in> set (AList.delete k lvs)" by (simp add: set_alist_delete)
  with e(2) show "x \<in> side_slots h (AList.delete k lvs)"
    unfolding side_slots_def by blast
qed

lemma delete_level_cinv:
  assumes inv: "cinv X s" and mem: "(k, lv) \<in> set (levels sd s)" and em: "level_empty lv"
  shows "cinv X (set_levels sd (AList.delete k (levels sd s)) s)"
    and "qset (set_levels sd (AList.delete k (levels sd s)) s) = qset s"
proof -
  let ?s' = "set_levels sd (AList.delete k (levels sd s)) s"
  from inv have LVs: "LV s" by (simp add: cinv_def)
  have ok: "level_ok (heap s) sd (k, lv)" using lv_inv_level_ok[OF LV_side[OF LVs] mem] .
  from level_empty_iff[OF level_okD(1)[OF ok]] em have q: "queue_of (heap s) lv = []" by simp
  have ss: "side_slots (heap s) (AList.delete k (levels sd s)) = side_slots (heap s) (levels sd s)"
    by (rule side_slots_delete[OF mem LV_distinct_keys[OF LVs] q])
  show qs: "qset ?s' = qset s"
    unfolding qset_opp[of ?s' sd] qset_opp[of s sd] by (simp add: ss)
  have "lv_inv (heap ?s') sd' (levels sd' ?s')" for sd'
    using side_cases[of sd' sd] LV_side[OF LVs] lv_inv_delete by auto
  then have "LV ?s'" by (simp add: LV_def)
  then show "cinv X ?s'" using inv unfolding cinv_def qs by simp
qed

lemma set_levels_bids_asks:
  "s\<lparr>asks := as\<rparr> = set_levels Sell as s" "s\<lparr>bids := bs\<rparr> = set_levels Buy bs s"
  by (simp_all add: set_levels_def)

lemma levels_bids_asks: "asks s = levels Sell s" "bids s = levels Buy s"
  by (simp_all add: levels_def)

lemma all_side: "(\<forall>sd. P sd) = (P Buy \<and> P Sell)"
  by (metis side.exhaust)

lemma nonempty_levels_iff:
  "nonempty_levels s = (\<forall>sd j. j < length (levels sd s) \<longrightarrow> \<not> level_empty (snd (levels sd s ! j)))"
  unfolding nonempty_levels_def levels_bids_asks list_all_length all_side by simp

lemma erase_at_nth:
  "j < length (erase_at i xs) \<Longrightarrow> \<exists>j'. j' < length xs \<and> j' \<noteq> i \<and> erase_at i xs ! j = xs ! j'"
proof -
  assume j: "j < length (erase_at i xs)"
  show ?thesis
  proof (cases "j < i")
    case True
    with j have "erase_at i xs ! j = xs ! j" "j < length xs"
      by (auto simp: erase_at_def nth_append)
    with True show ?thesis by auto
  next
    case False
    with j have "erase_at i xs ! j = xs ! (Suc j)" "Suc j < length xs"
      by (auto simp: erase_at_def nth_append min_def split: if_splits)
    with False show ?thesis by (intro exI[of _ "Suc j"]) auto
  qed
qed

lemma erase_level_inv:
  assumes inv: "match_inv sd i a s" and em: "level_empty (level_at sd i s)"
  shows "cinv {a} (set_levels sd (erase_at i (levels sd s)) s)"
    and "nonempty_levels (set_levels sd (erase_at i (levels sd s)) s)"
    and "qset (set_levels sd (erase_at i (levels sd s)) s) = qset s"
proof -
  from inv have ci: "cinv {a} s" and i: "i < length (levels sd s)" and on: "others_nonempty sd i s"
    by (simp_all add: match_inv_def)
  from ci have LVs: "LV s" by (simp add: cinv_def)
  have er: "erase_at i (levels sd s) = AList.delete (fst (levels sd s ! i)) (levels sd s)"
    by (rule erase_at_delete[OF LV_distinct_keys[OF LVs] i])
  have mem: "(fst (levels sd s ! i), snd (levels sd s ! i)) \<in> set (levels sd s)" using i by simp
  from em have em': "level_empty (snd (levels sd s ! i))" by (simp add: level_at_def)
  show "cinv {a} (set_levels sd (erase_at i (levels sd s)) s)"
    unfolding er by (rule delete_level_cinv(1)[OF ci mem em'])
  show "qset (set_levels sd (erase_at i (levels sd s)) s) = qset s"
    unfolding er by (rule delete_level_cinv(2)[OF ci mem em'])
  show "nonempty_levels (set_levels sd (erase_at i (levels sd s)) s)"
    unfolding nonempty_levels_iff
  proof (intro allI impI)
    fix sd' j assume j: "j < length (levels sd' (set_levels sd (erase_at i (levels sd s)) s))"
    show "\<not> level_empty (snd (levels sd' (set_levels sd (erase_at i (levels sd s)) s) ! j))"
    proof (cases "sd' = sd")
      case True
      with j have "j < length (erase_at i (levels sd s))" by simp
      from erase_at_nth[OF this] obtain j' where
        "j' < length (levels sd s)" "j' \<noteq> i" "erase_at i (levels sd s) ! j = levels sd s ! j'"
        by blast
      with on True show ?thesis by (simp add: others_nonempty_def)
    next
      case False
      with j on show ?thesis by (simp add: others_nonempty_def)
    qed
  qed
qed

lemma nonempty_others: "nonempty_levels s \<Longrightarrow> others_nonempty sd i s"
  by (simp add: nonempty_levels_iff others_nonempty_def)

lemma others_nonempty_all:
  "others_nonempty sd i s \<Longrightarrow> \<not> level_empty (level_at sd i s) \<Longrightarrow> nonempty_levels s"
  unfolding nonempty_levels_iff others_nonempty_def level_at_def
proof (intro allI impI)
  fix sd' j
  assume a: "\<forall>sd' j. j < length (levels sd' s) \<longrightarrow> (sd', j) \<noteq> (sd, i)
               \<longrightarrow> \<not> level_empty (snd (levels sd' s ! j))"
    and b: "\<not> level_empty (snd (levels sd s ! i))" and j: "j < length (levels sd' s)"
  show "\<not> level_empty (snd (levels sd' s ! j))"
  proof (cases "(sd', j) = (sd, i)")
    case True
    with b show ?thesis by simp
  next
    case False
    with a j show ?thesis by blast
  qed
qed

section \<open>What matching leaves alone\<close>

lemma mframe_refl [simp]: "mframe s s"
  by (simp add: mframe_def)

lemma mframe_trans: "mframe s t \<Longrightarrow> mframe t u \<Longrightarrow> mframe s u"
  by (simp add: mframe_def)

lemma mframe_execute_trade:
  assumes inv: "LV s" and mem: "(k, lv) \<in> set (levels sd s)"
    and pin: "p \<in> set (queue_of (heap s) lv)" and ap: "a \<noteq> p"
  shows "mframe s (fst (execute_trade a p qty (s, r)))"
  unfolding mframe_def execute_trade_effect[OF inv mem pin ap]
  by (simp add: nth_upd)

lemma mframe_retire_passive:
  assumes inv: "LV s" and i: "i < length (levels sd s)"
  shows "mframe s (retire_passive sd i p s)"
proof -
  note re = retire_passive_effect[OF inv i, where p = p]
  have "data (heap (level_remove_at sd i p s) ! j) = data (heap s ! j)" for j
    by (rule level_remove_at_effect(3)[OF inv i])
  from data_fields[OF this] show ?thesis
    unfolding mframe_def re
    by (simp add: nth_upd level_remove_at_effect(4)[OF inv i])
qed

lemma mframe_set_levels [simp]: "mframe s (set_levels sd lvs s)"
  by (simp add: mframe_def)

lemma match_step_frame:
  assumes inv: "match_inv sd i a s" and hd: "l_head (level_at sd i s) = Some p"
  shows "mframe s (fst (match_step sd i a p (s, r)))"
    and "map fst (levels sd' (fst (match_step sd i a p (s, r)))) = map fst (levels sd' s)"
proof -
  let ?k = "fst (levels sd s ! i)" and ?lv = "snd (levels sd s ! i)"
  let ?qty = "min (remaining (heap s ! a)) (remaining (heap s ! p))"
  let ?s1 = "fst (execute_trade a p ?qty (s, r))"
  from inv have ci: "cinv {a} s" and i: "i < length (levels sd s)"
    by (simp_all add: match_inv_def)
  from ci have LVs: "LV s" and aq: "a \<notin> qset s" by (simp_all add: cinv_def)
  have mem: "(?k, ?lv) \<in> set (levels sd s)" using i by simp
  have ok: "level_ok (heap s) sd (?k, ?lv)" using lv_inv_level_ok[OF LV_side[OF LVs] mem] .
  from level_head[OF level_okD(1)[OF ok]] hd have pin: "p \<in> set (queue_of (heap s) ?lv)"
    by (auto simp: level_at_def split: list.splits)
  have ap: "a \<noteq> p" using pin queue_subset_qset[OF mem] aq by auto
  note eff = execute_trade_effect[OF LVs mem pin ap, of ?qty r]
  have LV1: "LV ?s1" using execute_trade_core(1)[OF ci mem pin, of a ?qty r] by (simp add: cinv_def)
  have k1: "map fst (levels sd' ?s1) = map fst (levels sd' s)"
    using side_cases[of sd' sd] by (auto simp: eff)
  then have i1: "i < length (levels sd ?s1)" using i side_cases[of sd' sd]
    by (simp add: eff)
  have f1: "mframe s ?s1" by (rule mframe_execute_trade[OF LVs mem pin ap])
  have f2: "mframe ?s1 (retire_passive sd i p ?s1)" by (rule mframe_retire_passive[OF LV1 i1])
  have k2: "map fst (levels sd' (retire_passive sd i p ?s1)) = map fst (levels sd' ?s1)"
    unfolding retire_passive_effect(3)[OF LV1 i1] by (rule level_remove_at_effect(5)[OF LV1 i1])
  show "mframe s (fst (match_step sd i a p (s, r)))"
    using f1 mframe_trans[OF f1 f2] by (simp add: match_step_unfold Let_def)
  show "map fst (levels sd' (fst (match_step sd i a p (s, r)))) = map fst (levels sd' s)"
    using k1 k2 by (simp add: match_step_unfold Let_def)
qed


lemma length_erase_at: "i < length xs \<Longrightarrow> length (erase_at i xs) = length xs - 1"
  by (auto simp: erase_at_def)





section \<open>The phases of add_order\<close>

lemma order_all_fields:
  "(x::order)\<lparr>o_prev := pv, o_next := nx, o_id := i, o_side := sd, o_type := ty, o_price := pr,
      o_quantity := q, o_filled_quantity := f, o_status := st, o_timestamp := ts\<rparr>
   = \<lparr>o_id = i, o_price = pr, o_quantity = q, o_filled_quantity = f, o_side = sd, o_type = ty,
      o_status = st, o_prev = pv, o_next = nx, o_timestamp = ts\<rparr>"
  by (cases x) simp

lemma begin_order_effect:
  assumes lt: "a < length (heap s1)"
  shows "heap (fst (begin_order a sd ty pr qty s1)) =
           (heap s1)[a := (heap s1 ! a)\<lparr>o_id := next_id s1 + 1, o_side := sd, o_type := ty,
              o_price := pr, o_quantity := qty, o_filled_quantity := 0, o_status := Active,
              o_timestamp := timestamp_counter s1 + 1\<rparr>]"
    and "levels sd' (fst (begin_order a sd ty pr qty s1)) = levels sd' s1"
    and "orders (fst (begin_order a sd ty pr qty s1)) = orders s1"
    and "pool_free_stack (pool (fst (begin_order a sd ty pr qty s1))) = pool_free_stack (pool s1)"
    and "pool_free_count (pool (fst (begin_order a sd ty pr qty s1))) = pool_free_count (pool s1)"
    and "pool_capacity (pool (fst (begin_order a sd ty pr qty s1))) = pool_capacity (pool s1)"
    and "pool_size (pool (fst (begin_order a sd ty pr qty s1))) = pool_size (pool s1)"
    and "next_id (fst (begin_order a sd ty pr qty s1)) = next_id s1 + 1"
    and "timestamp_counter (fst (begin_order a sd ty pr qty s1)) = timestamp_counter s1 + 1"
    and "trade_count (fst (begin_order a sd ty pr qty s1)) = trade_count s1"
    and "total_volume (fst (begin_order a sd ty pr qty s1)) = total_volume s1"
    and "snd (begin_order a sd ty pr qty s1) = order_result_init\<lparr>r_order_id := next_id s1 + 1\<rparr>"
  using lt by (simp_all add: begin_order_def Let_def nth_upd)

lemma cinv_heap_unqueued:
  assumes inv: "cinv X s" and len: "length (heap s') = length (heap s)"
    and same: "\<And>j. j \<in> qset s \<Longrightarrow> heap s' ! j = heap s ! j"
    and lvs: "\<And>sd. levels sd s' = levels sd s"
    and os: "orders s' = orders s"
    and pl: "pool_free_stack (pool s') = pool_free_stack (pool s)"
            "pool_free_count (pool s') = pool_free_count (pool s)"
            "pool_capacity (pool s') = pool_capacity (pool s)"
  shows "cinv X s'" and "qset s' = qset s"
proof -
  from inv have LVs: "LV s" and io: "idx_ok (heap s) (orders s) (qset s)"
    and po: "pool_ok (length (heap s)) (pool s) (X \<union> qset s)"
    and Xq: "X \<inter> qset s = {}" and Xb: "\<forall>x\<in>X. x < length (heap s)"
    by (simp_all add: cinv_def)
  note f = LV_frame[OF LVs len same lvs]
  show q: "qset s' = qset s" by (rule f(2))
  have io': "idx_ok (heap s') (orders s') (qset s')"
    unfolding q os by (rule idx_ok_frame[OF io]) (auto simp: same)
  have po': "pool_ok (length (heap s')) (pool s') (X \<union> qset s')"
    unfolding q len using po pool_ok_cong[OF pl] by simp
  show "cinv X s'" using f(1) io' po' Xq Xb q len by (simp add: cinv_def)
qed

lemma nonempty_levels_cong:
  "(\<And>sd. levels sd s' = levels sd s) \<Longrightarrow> nonempty_levels s' = nonempty_levels s"
  by (simp add: nonempty_levels_iff)

lemma cinv_upd_unqueued:
  assumes inv: "cinv X s" and aX: "a \<in> X"
  shows "cinv X (upd_order a f s)" and "qset (upd_order a f s) = qset s"
    and "nonempty_levels (upd_order a f s) = nonempty_levels s"
proof -
  from inv aX have aq: "a \<notin> qset s" by (auto simp: cinv_def)
  have same: "heap (upd_order a f s) ! j = heap s ! j" if "j \<in> qset s" for j
    using that aq by (auto simp: nth_upd)
  show "cinv X (upd_order a f s)"
    by (rule cinv_heap_unqueued(1)[OF inv _ same]) simp_all
  show "qset (upd_order a f s) = qset s"
    by (rule cinv_heap_unqueued(2)[OF inv _ same]) simp_all
  show "nonempty_levels (upd_order a f s) = nonempty_levels s"
    by (rule nonempty_levels_cong) simp
qed

lemma begin_order_inv:
  assumes inv: "core_inv s" and fc: "pool_free_count (pool s) \<noteq> 0"
  shows "\<exists>a pl. allocate (pool s) = Inr (a, pl) \<and> a = next_slot s \<and> a < length (heap s)
           \<and> a \<notin> qset s
           \<and> pool_free_stack pl = pool_free_stack (pool s)
           \<and> pool_free_count pl = pool_free_count (pool s) - 1
           \<and> pool_capacity pl = pool_capacity (pool s)
           \<and> pool_size pl = pool_size (pool s) + 1
           \<and> pool_orders pl = (heap s)[a := reset (heap s ! a)]
           \<and> cinv {a} (fst (begin_order a sd ty pr qty (s\<lparr>pool := pl\<rparr>)))
           \<and> qset (fst (begin_order a sd ty pr qty (s\<lparr>pool := pl\<rparr>))) = qset s"
proof -
  from inv have LVs: "LV s" and io: "idx_ok (heap s) (orders s) (qset s)"
    and po: "pool_ok (length (heap s)) (pool s) (qset s)"
    by (simp_all add: core_inv_LV)
  from pool_ok_allocate[OF po fc] obtain a pl where
    al: "allocate (pool s) = Inr (a, pl)" and a: "a = next_slot s"
    and pl: "pl = (pool s)\<lparr>pool_free_count := pool_free_count (pool s) - 1,
                       pool_orders := (pool_orders (pool s))[a := reset (pool_orders (pool s) ! a)],
                       pool_size := pool_size (pool s) + 1\<rparr>"
    and po1: "pool_ok (length (heap s)) pl (qset s)" and an: "a < length (heap s)"
    and aq: "a \<notin> qset s"
    and af: "a \<notin> set (take (pool_free_count pl) (pool_free_stack pl))"
    by (auto simp: next_slot_def)
  let ?s1 = "s\<lparr>pool := pl\<rparr>"
  let ?B = "fst (begin_order a sd ty pr qty ?s1)"
  have h1: "pool_orders pl = (heap s)[a := reset (heap s ! a)]" by (simp add: pl heap_def)
  have l1: "a < length (heap ?s1)" using an by (simp add: h1)
  note be = begin_order_effect[OF l1, where sd = sd and ty = ty and pr = pr and qty = qty]
  have lvB: "levels sd' ?B = levels sd' s" for sd' by (simp only: be(2) levels_simps)
  have po2: "pool_ok (length (heap s)) pl ({a} \<union> qset s)"
    using po1 af by (auto simp: pool_ok_def)
  have len: "length (heap ?B) = length (heap s)" by (simp add: be h1)
  have same: "heap ?B ! j = heap s ! j" if "j \<in> qset s" for j
    using that aq by (auto simp: be h1 nth_upd)
  have LVB: "LV ?B" by (rule LV_frame(1)[OF LVs len same lvB])
  have qB: "qset ?B = qset s" by (rule LV_frame(2)[OF LVs len same lvB])
  have oB: "orders ?B = orders s" by (simp add: be(3))
  have ioB: "idx_ok (heap ?B) (orders ?B) (qset ?B)"
    unfolding qB oB by (rule idx_ok_frame[OF io]) (use same in auto)
  have poB: "pool_ok (length (heap ?B)) (pool ?B) ({a} \<union> qset ?B)"
    unfolding qB len using po2 pool_ok_cong[OF be(4) be(5) be(6)] by simp
  have "cinv {a} ?B" using LVB ioB poB aq an qB len by (simp add: cinv_def)
  with al a an aq qB show ?thesis by (auto simp: pl heap_def)
qed

section \<open>Resting an order\<close>

lemma try_emplace_present:
  "sorted_wrt (<) (map fst lvs) \<Longrightarrow> k \<in> fst ` set lvs \<Longrightarrow> try_emplace k v lvs = lvs"
proof (induction lvs)
  case Nil
  then show ?case by simp
next
  case (Cons e lvs)
  show ?case
  proof (cases "k = fst e")
    case True
    then show ?thesis by simp
  next
    case False
    with Cons.prems have kin: "k \<in> fst ` set lvs" by auto
    with Cons.prems(1) have "fst e < k" by auto
    with Cons kin False show ?thesis by auto
  qed
qed

lemma try_emplace_absent:
  "k \<notin> fst ` set lvs \<Longrightarrow> set (try_emplace k v lvs) = insert (k, v) (set lvs)"
  by (induction lvs) auto

lemma try_emplace_sorted:
  "sorted_wrt (<) (map fst lvs) \<Longrightarrow> sorted_wrt (<) (map fst (try_emplace k v lvs))"
proof (induction lvs)
  case Nil
  then show ?case by simp
next
  case (Cons e lvs)
  show ?case
  proof (cases "k \<in> fst ` set (e # lvs)")
    case True
    with Cons.prems show ?thesis by (simp only: try_emplace_present)
  next
    case False
    then have ne: "k \<noteq> fst e" and nin: "k \<notin> fst ` set lvs" by auto
    show ?thesis
    proof (cases "k < fst e")
      case True
      with Cons.prems show ?thesis by auto
    next
      case False
      with ne have lt: "fst e < k" by auto
      have "set (map fst (try_emplace k v lvs)) = insert k (set (map fst lvs))"
        using try_emplace_absent[OF nin, of v] by (metis fst_conv image_insert set_map)
      with Cons lt False ne show ?thesis by auto
    qed
  qed
qed

lemma try_emplace_mem:
  assumes "sorted_wrt (<) (map fst lvs)"
  shows "\<exists>lv. (k, lv) \<in> set (try_emplace k v lvs)
           \<and> map_of (try_emplace k v lvs) k = Some lv
           \<and> (if k \<in> fst ` set lvs then (k, lv) \<in> set lvs \<and> try_emplace k v lvs = lvs
               else lv = v \<and> set (try_emplace k v lvs) = insert (k, v) (set lvs))"
proof (cases "k \<in> fst ` set lvs")
  case True
  then obtain lv where lv: "(k, lv) \<in> set lvs" by auto
  have "distinct (map fst lvs)" using assms by (rule sorted_keys_distinct)
  with lv have "map_of lvs k = Some lv" by simp
  with lv True try_emplace_present[OF assms True, of v] show ?thesis by auto
next
  case False
  have d: "distinct (map fst (try_emplace k v lvs))"
    using try_emplace_sorted[OF assms] by (rule sorted_keys_distinct)
  have "(k, v) \<in> set (try_emplace k v lvs)" using try_emplace_absent[OF False] by simp
  with d have "map_of (try_emplace k v lvs) k = Some v" by simp
  with False try_emplace_absent[OF False, of v] show ?thesis by auto
qed

lemma valid_queue_tail:
  "valid_queue h lv q \<Longrightarrow> l_tail lv = Some x \<Longrightarrow> x \<in> set q"
  unfolding valid_queue_def using dseg_last_in by blast

lemma insert_into_book_inv:
  assumes inv: "cinv {a} s" and ne: "nonempty_levels s"
  shows "LV (insert_into_book a s)" and "qset (insert_into_book a s) = insert a (qset s)"
    and "nonempty_levels (insert_into_book a s)"
    and "length (heap (insert_into_book a s)) = length (heap s)"
    and "\<And>j. data (heap (insert_into_book a s) ! j) = data (heap s ! j)"
    and "orders (insert_into_book a s) = orders s"
    and "pool_free_stack (pool (insert_into_book a s)) = pool_free_stack (pool s)"
    and "pool_free_count (pool (insert_into_book a s)) = pool_free_count (pool s)"
    and "pool_capacity (pool (insert_into_book a s)) = pool_capacity (pool s)"
proof -
  let ?sd = "o_side (heap s ! a)" and ?k = "o_price (heap s ! a)"
  let ?lvs = "try_emplace ?k (price_level_init ?k) (levels ?sd s)"
  let ?te = "set_levels ?sd ?lvs s"
  from inv have LVs: "LV s" and aq: "a \<notin> qset s" and al: "a < length (heap s)"
    by (simp_all add: cinv_def)
  have srt: "sorted_wrt (<) (map fst (levels ?sd s))"
    using LV_side[OF LVs, of ?sd] by (simp add: lv_inv_def)
  from try_emplace_mem[OF srt, of ?k "price_level_init ?k"] obtain lv where
    mem: "(?k, lv) \<in> set ?lvs" and mo: "map_of ?lvs ?k = Some lv"
    and alt: "if ?k \<in> fst ` set (levels ?sd s) then (?k, lv) \<in> set (levels ?sd s) \<and> ?lvs = levels ?sd s
              else lv = price_level_init ?k \<and> set ?lvs = insert (?k, price_level_init ?k) (set (levels ?sd s))"
    by blast
  have sub: "e \<in> set (levels ?sd s) \<or> e = (?k, price_level_init ?k)" if "e \<in> set ?lvs" for e
    using alt that by (auto split: if_splits)
  have sup: "set (levels ?sd s) \<subseteq> set ?lvs" using alt by (auto split: if_splits)
  have "level_ok (heap s) ?sd e" if "e \<in> set ?lvs" for e
  proof -
    from sub[OF that] show ?thesis
    proof
      assume "e \<in> set (levels ?sd s)"
      then show ?thesis by (rule lv_inv_level_ok[OF LV_side[OF LVs]])
    next
      assume "e = (?k, price_level_init ?k)"
      then show ?thesis by (simp only: level_ok_init)
    qed
  qed
  then have lvte: "lv_inv (heap s) ?sd ?lvs"
    unfolding lv_inv_def list_all_iff using try_emplace_sorted[OF srt] by simp
  have "lv_inv (heap ?te) sd' (levels sd' ?te)" for sd'
  proof (cases "sd' = ?sd")
    case True
    with lvte show ?thesis by simp
  next
    case False
    with LV_side[OF LVs, of sd'] show ?thesis by simp
  qed
  then have LVte: "LV ?te" by (simp only: LV_def simp_thms)
  have sste: "side_slots (heap s) ?lvs = side_slots (heap s) (levels ?sd s)"
  proof (rule set_eqI, rule iffI)
    fix x assume "x \<in> side_slots (heap s) ?lvs"
    then obtain e where e: "e \<in> set ?lvs" "x \<in> set (queue_of (heap s) (snd e))"
      unfolding side_slots_def by blast
    from sub[OF e(1)] e(2) have "e \<in> set (levels ?sd s)" by (auto simp: queue_of_init)
    with e(2) show "x \<in> side_slots (heap s) (levels ?sd s)" unfolding side_slots_def by blast
  next
    fix x assume "x \<in> side_slots (heap s) (levels ?sd s)"
    with sup show "x \<in> side_slots (heap s) ?lvs" unfolding side_slots_def by blast
  qed
  have qte: "qset ?te = qset s"
    unfolding qset_opp[of ?te ?sd] qset_opp[of s ?sd] by (simp add: sste)
  have memte: "(?k, lv) \<in> set (levels ?sd ?te)" using mem by simp
  have ok: "level_ok (heap s) ?sd (?k, lv)" using lv_inv_level_ok[OF lvte mem] .
  note vq = level_okD(1)[OF ok]
  have qin: "set (queue_of (heap s) lv) \<subseteq> qset s"
    using queue_subset_qset[OF memte] qte by simp
  have nin: "a \<notin> set (queue_of (heap s) lv)" using qin aq by auto
  let ?R = "level_add_order a (lv, heap s)"
  let ?t = "insert_into_book a s"
  have t: "?t = set_heap (snd ?R) (set_levels ?sd (set_level ?k (fst ?R) ?lvs) s)"
    using update_set_level[OF sorted_keys_distinct[OF try_emplace_sorted[OF srt]] mo]
    by (simp add: insert_into_book_def Let_def mo heap_def[symmetric])
  have len: "length (heap ?t) = length (heap ?te)" by (simp add: t level_add_order_heap)
  have frame: "heap ?t ! j = heap ?te ! j" if "j \<notin> set (queue_of (heap ?te) lv)" "j \<notin> {a}" for j
  proof -
    have "Some j \<noteq> l_tail lv" using valid_queue_tail[OF vq, of j] that by auto
    with that show ?thesis by (simp add: t level_add_order_heap)
  qed
  have X: "{a} \<inter> qset ?te = {}" using aq qte by simp
  have lvs2: "levels ?sd ?t = set_level ?k (fst ?R) (levels ?sd ?te)"
    "levels (opp ?sd) ?t = levels (opp ?sd) ?te" by (simp_all add: t)
  have new: "level_ok (heap ?t) ?sd (?k, fst ?R)"
    unfolding t using level_ok_add(1)[OF ok nin al refl refl] by simp
  have qn: "queue_of (heap ?t) (fst ?R) = queue_of (heap s) lv @ [a]"
    unfolding t using level_ok_add(2)[OF ok nin al refl refl] by simp
  have "lv_inv (heap ?t) sd' (levels sd' ?t)" for sd'
    by (rule LV_level_op(1)[OF LVte memte len frame X lvs2 new])
  then show "LV ?t" by (simp add: LV_def)
  have "qset ?t = (qset ?te - set (queue_of (heap ?te) lv)) \<union> set (queue_of (heap ?t) (fst ?R))"
    by (rule LV_level_op(2)[OF LVte memte len frame X lvs2 new])
  then show "qset ?t = insert a (qset s)" unfolding qn qte using qin by auto
  show "length (heap ?t) = length (heap s)" using len by simp
  show "\<And>j. data (heap ?t ! j) = data (heap s ! j)" by (simp add: t level_add_order_heap)
  show "orders ?t = orders s" by (simp add: t)
  show "pool_free_stack (pool ?t) = pool_free_stack (pool s)" by (simp add: t)
  show "pool_free_count (pool ?t) = pool_free_count (pool s)" by (simp add: t)
  show "pool_capacity (pool ?t) = pool_capacity (pool s)" by (simp add: t)
  show "nonempty_levels ?t"
    unfolding nonempty_levels_iff
  proof (intro allI impI)
    fix sd' j assume j: "j < length (levels sd' ?t)"
    show "\<not> level_empty (snd (levels sd' ?t ! j))"
    proof (cases "sd' = ?sd \<and> fst (?lvs ! j) = ?k")
      case True
      then have "levels sd' ?t ! j = (?k, fst ?R)" using j by (simp add: t set_level_nth)
      moreover have "valid_queue (heap ?t) (fst ?R) (queue_of (heap s) lv @ [a])"
        using level_okD(1)[OF new] qn by simp
      from level_empty_iff[OF this] have "\<not> level_empty (fst ?R)" by simp
      ultimately show ?thesis by simp
    next
      case False
      show ?thesis
      proof (cases "sd' = ?sd")
        case True
        with False j have e: "levels sd' ?t ! j = ?lvs ! j" "j < length ?lvs" "fst (?lvs ! j) \<noteq> ?k"
          by (simp_all add: t set_level_nth)
        then have "?lvs ! j \<in> set ?lvs" by simp
        from sub[OF this] e(3) have "?lvs ! j \<in> set (levels ?sd s)" by auto
        then obtain j' where j': "j' < length (levels ?sd s)" "levels ?sd s ! j' = ?lvs ! j"
          by (auto simp: in_set_conv_nth)
        from ne[unfolded nonempty_levels_iff, rule_format, OF j'(1)]
        have "\<not> level_empty (snd (levels ?sd s ! j'))" .
        with j'(2) e(1) show ?thesis by simp
      next
        case False
        with j ne show ?thesis unfolding nonempty_levels_iff by (simp add: t)
      qed
    qed
  qed
qed


lemma rest_order_inv:
  assumes inv: "cinv {a} sm" and ne: "nonempty_levels sm"
  shows "core_inv (rest_order a sm)" and "nonempty_levels (rest_order a sm)"
    and "qset (rest_order a sm) = insert a (qset sm)"
proof -
  let ?t1 = "if 0 < o_filled_quantity (heap sm ! a)
             then upd_order a (\<lambda>ord. ord\<lparr>o_status := PartiallyFilled\<rparr>) sm else sm"
  let ?t2 = "insert_into_book a ?t1"
  let ?t3 = "rest_order a sm"
  have c1: "cinv {a} ?t1" and q1: "qset ?t1 = qset sm" and n1: "nonempty_levels ?t1"
    using cinv_upd_unqueued[OF inv, of a] inv ne by auto
  note ib = insert_into_book_inv[OF c1 n1]
  from c1 have io: "idx_ok (heap ?t1) (orders ?t1) (qset ?t1)"
    and po: "pool_ok (length (heap ?t1)) (pool ?t1) ({a} \<union> qset ?t1)"
    by (simp_all add: cinv_def)
  have t3: "?t3 = ?t2\<lparr>orders := AList.update (o_id (heap ?t2 ! a)) a (orders ?t2)\<rparr>"
    by (simp add: rest_order_def Let_def)
  have h3: "heap ?t3 = heap ?t2" and l3: "levels sd ?t3 = levels sd ?t2" for sd
    unfolding t3 by simp_all
  have LV3: "LV ?t3" using ib(1) unfolding LV_def h3 l3 .
  show q3: "qset ?t3 = insert a (qset sm)" using ib(2) q1 unfolding qset_def h3 l3 by simp
  have q2: "qset ?t2 = insert a (qset sm)" using ib(2) q1 by simp
  have ids: "o_id (heap ?t2 ! j) = o_id (heap ?t1 ! j)" for j
    using data_fields[OF ib(5)[of j]] by simp
  have "idx_ok (heap ?t2) (orders ?t1) (insert a (qset sm))"
    by (rule idx_ok_frame[OF io]) (auto simp: ids q1)
  then have "idx_ok (heap ?t2) (AList.update (o_id (heap ?t2 ! a)) a (orders ?t1)) (insert a (qset sm))"
    by (rule idx_ok_update) simp_all
  then have io3: "idx_ok (heap ?t3) (orders ?t3) (qset ?t3)"
    unfolding q3 h3 unfolding t3 by (simp add: ib(6))
  have "pool_ok (length (heap ?t1)) (pool ?t2) ({a} \<union> qset ?t1)"
    using po pool_ok_cong[OF ib(7) ib(8) ib(9)] by simp
  then have po3: "pool_ok (length (heap ?t3)) (pool ?t3) (qset ?t3)"
    unfolding q3 h3 ib(4) q1 unfolding t3 by simp
  show "core_inv ?t3" using LV3 io3 po3 by (simp add: core_inv_LV)
  show "nonempty_levels ?t3" using ib(3) nonempty_levels_cong[of ?t3 ?t2] l3 by blast
qed



section \<open>Releasing a resting order\<close>

lemma retire_passive_release: "retire_passive sd i p s = release_order Filled sd i p s"
  by (simp add: retire_passive_def release_order_def)






lemma book_eqI:
  fixes s t :: book
  assumes "bids s = bids t" "asks s = asks t" "orders s = orders t" "pool s = pool t"
    "next_id s = next_id t" "timestamp_counter s = timestamp_counter t"
    "trade_count s = trade_count t" "total_volume s = total_volume t"
  shows "s = t"
  using assms by (cases s, cases t) simp

lemma idx_lookup:
  assumes inv: "core_inv s" and mo: "map_of (orders s) oid = Some p"
  shows "\<exists>i. i < length (levels (o_side (heap s ! p)) s)
           \<and> fst (levels (o_side (heap s ! p)) s ! i) = o_price (heap s ! p)
           \<and> p \<in> set (queue_of (heap s) (snd (levels (o_side (heap s ! p)) s ! i)))
           \<and> map_of (levels (o_side (heap s ! p)) s) (o_price (heap s ! p))
               = Some (snd (levels (o_side (heap s ! p)) s ! i))
           \<and> o_id (heap s ! p) = oid"
proof -
  from inv have LVs: "LV s" and io: "idx_ok (heap s) (orders s) (qset s)"
    by (simp_all add: core_inv_LV)
  from mo have "(oid, p) \<in> set (orders s)" by (rule map_of_SomeD)
  with io have pq: "p \<in> qset s" and id: "o_id (heap s ! p) = oid" by (auto simp: idx_ok_def)
  from pq obtain sd e where e: "e \<in> set (levels sd s)" "p \<in> set (queue_of (heap s) (snd e))"
    unfolding qset_iff by blast
  note sl = lv_inv_slot[OF LV_side[OF LVs] e]
  from e(1) obtain i where i: "i < length (levels sd s)" "levels sd s ! i = e"
    by (auto simp: in_set_conv_nth)
  with sl e id show ?thesis by auto
qed

section \<open>What one step of matching does\<close>

lemma match_step_effect:
  assumes inv: "match_inv sd i a s" and hd: "l_head (level_at sd i s) = Some p"
  shows "p \<in> qset s" and "a \<noteq> p" and "a \<notin> qset s"
    and "o_side (heap s ! p) = sd" and "o_price (heap s ! p) = fst (levels sd s ! i)"
    and "queue_at sd i s = p # tl (queue_at sd i s)"
    and "qset (fst (match_step sd i a p (s, r)))
           = (if is_filled (heap (fst (match_step sd i a p (s, r))) ! p) then qset s - {p} else qset s)"
    and "orders (fst (match_step sd i a p (s, r)))
           = (if is_filled (heap (fst (match_step sd i a p (s, r))) ! p)
              then AList.delete (o_id (heap s ! p)) (orders s) else orders s)"
    and "j \<noteq> a \<Longrightarrow> j \<noteq> p \<Longrightarrow>
           o_filled_quantity (heap (fst (match_step sd i a p (s, r))) ! j) = o_filled_quantity (heap s ! j)"
    and "o_filled_quantity (heap (fst (match_step sd i a p (s, r))) ! p)
           = o_filled_quantity (heap s ! p) + min (remaining (heap s ! a)) (remaining (heap s ! p))"
    and "o_filled_quantity (heap (fst (match_step sd i a p (s, r))) ! a)
           = o_filled_quantity (heap s ! a) + min (remaining (heap s ! a)) (remaining (heap s ! p))"
    and "o_status (heap (fst (match_step sd i a p (s, r))) ! a) = o_status (heap s ! a)"
    and "snd (match_step sd i a p (s, r)) =
           r\<lparr>r_trades := r_trades r @
              [\<lparr>t_buy_order_id = (if o_side (heap s ! a) = Buy then o_id (heap s ! a) else o_id (heap s ! p)),
                t_sell_order_id = (if o_side (heap s ! a) = Buy then o_id (heap s ! p) else o_id (heap s ! a)),
                t_price = o_price (heap s ! p),
                t_quantity = min (remaining (heap s ! a)) (remaining (heap s ! p)),
                t_timestamp = timestamp_counter s\<rparr>]\<rparr>"
proof -
  let ?k = "fst (levels sd s ! i)" and ?lv = "snd (levels sd s ! i)"
  let ?qty = "min (remaining (heap s ! a)) (remaining (heap s ! p))"
  let ?s1 = "fst (execute_trade a p ?qty (s, r))"
  let ?s' = "fst (match_step sd i a p (s, r))"
  from inv have ci: "cinv {a} s" and i: "i < length (levels sd s)"
    by (simp_all add: match_inv_def)
  from ci have LVs: "LV s" and aq: "a \<notin> qset s" and al: "a < length (heap s)"
    by (simp_all add: cinv_def)
  show "a \<notin> qset s" by (rule aq)
  have mem: "(?k, ?lv) \<in> set (levels sd s)" using i by simp
  have ok: "level_ok (heap s) sd (?k, ?lv)" using lv_inv_level_ok[OF LV_side[OF LVs] mem] .
  note vq = level_okD(1)[OF ok]
  from level_head[OF vq] hd obtain rest where q: "queue_of (heap s) ?lv = p # rest"
    by (auto simp: level_at_def split: list.splits)
  then have pin: "p \<in> set (queue_of (heap s) ?lv)" by simp
  show "queue_at sd i s = p # tl (queue_at sd i s)" using q by (simp add: queue_at_def)
  show pq: "p \<in> qset s" using pin queue_subset_qset[OF mem] by auto
  show ap: "a \<noteq> p" using pq aq by auto
  have pl: "p < length (heap s)" by (rule qset_bound[OF LVs pq])
  show sl: "o_side (heap s ! p) = sd" "o_price (heap s ! p) = ?k"
    using lv_inv_slot[OF LV_side[OF LVs] mem] pin by auto
  have mo: "map_of (levels sd s) ?k = Some ?lv"
    using lv_inv_slot[OF LV_side[OF LVs] mem] pin by auto
  note eff = execute_trade_effect[OF LVs mem pin ap, of ?qty r]
  note c1 = execute_trade_core[OF ci mem pin, of a ?qty r, simplified]
  have LV1: "LV ?s1" using c1(1) by (simp add: cinv_def)
  have i1: "i < length (levels sd ?s1)" using i by (simp add: eff)
  have l1: "levels sd ?s1 ! i = (?k, ?lv\<lparr>l_total_quantity := l_total_quantity ?lv - ?qty\<rparr>)"
    using i by (simp add: eff set_level_nth LV_distinct_keys[OF LVs])
  have q1: "queue_at sd i ?s1 = p # rest"
    using c1(3) q by (simp add: queue_at_def l1)
  have pin1: "p \<in> set (queue_of (heap ?s1) (snd (levels sd ?s1 ! i)))"
    using q1 by (simp add: queue_at_def)
  have hp: "heap ?s1 ! p = (heap s ! p)\<lparr>o_filled_quantity := o_filled_quantity (heap s ! p) + ?qty\<rparr>"
    and ha: "heap ?s1 ! a = (heap s ! a)\<lparr>o_filled_quantity := o_filled_quantity (heap s ! a) + ?qty\<rparr>"
    and hj: "\<And>j. j \<noteq> a \<Longrightarrow> j \<noteq> p \<Longrightarrow> heap ?s1 ! j = heap s ! j"
    using ap pl al by (simp_all add: eff nth_upd)
  note r = retire_passive_core[OF c1(1) i1 pin1]
  note re = retire_passive_effect[OF LV1 i1, where p = p]
  note te = level_remove_at_effect[OF LV1 i1, where p = p]
  have tf: "o_filled_quantity (heap (level_remove_at sd i p ?s1) ! j) = o_filled_quantity (heap ?s1 ! j)"
           "o_quantity (heap (level_remove_at sd i p ?s1) ! j) = o_quantity (heap ?s1 ! j)"
           "o_status (heap (level_remove_at sd i p ?s1) ! j) = o_status (heap ?s1 ! j)" for j
    using data_fields[OF te(3)[of j]] by auto
  have fr: "o_filled_quantity (heap (retire_passive sd i p ?s1) ! j) = o_filled_quantity (heap ?s1 ! j)"
           "o_quantity (heap (retire_passive sd i p ?s1) ! j) = o_quantity (heap ?s1 ! j)"
           "j \<noteq> p \<Longrightarrow> o_status (heap (retire_passive sd i p ?s1) ! j) = o_status (heap ?s1 ! j)" for j
    by (simp_all add: re nth_upd tf)
  have fl: "is_filled (heap ?s' ! p) = is_filled (heap ?s1 ! p)"
    using fr(1,2)[of p] by (simp add: match_step_unfold Let_def is_filled_def)
  show "snd (match_step sd i a p (s, r)) =
           r\<lparr>r_trades := r_trades r @
              [\<lparr>t_buy_order_id = (if o_side (heap s ! a) = Buy then o_id (heap s ! a) else o_id (heap s ! p)),
                t_sell_order_id = (if o_side (heap s ! a) = Buy then o_id (heap s ! p) else o_id (heap s ! a)),
                t_price = o_price (heap s ! p),
                t_quantity = min (remaining (heap s ! a)) (remaining (heap s ! p)),
                t_timestamp = timestamp_counter s\<rparr>]\<rparr>"
    using sl mo ap al pl
    by (simp add: match_step_unfold execute_trade_def Let_def nth_upd)
  show "qset ?s' = (if is_filled (heap ?s' ! p) then qset s - {p} else qset s)"
    unfolding fl using r(2) c1(2) by (simp add: match_step_unfold Let_def)
  show "orders ?s' = (if is_filled (heap ?s' ! p)
              then AList.delete (o_id (heap s ! p)) (orders s) else orders s)"
    unfolding fl using hp by (simp add: match_step_unfold Let_def re eff)
  show "j \<noteq> a \<Longrightarrow> j \<noteq> p \<Longrightarrow> o_filled_quantity (heap ?s' ! j) = o_filled_quantity (heap s ! j)"
    using fr(1)[of j] hj[of j] by (simp add: match_step_unfold Let_def)
  show "o_filled_quantity (heap ?s' ! p) = o_filled_quantity (heap s ! p) + ?qty"
    using fr(1)[of p] hp by (simp add: match_step_unfold Let_def)
  show "o_filled_quantity (heap ?s' ! a) = o_filled_quantity (heap s ! a) + ?qty"
    using fr(1)[of a] ha by (simp add: match_step_unfold Let_def)
  show "o_status (heap ?s' ! a) = o_status (heap s ! a)"
    using fr(3)[of a] ha ap by (simp add: match_step_unfold Let_def)
qed

section \<open>Properties carried through the matching loops\<close>

lemma match_level_gen:
  assumes inv: "match_inv sd i a s" and J0: "J (s, r)"
    and step: "\<And>p t u. match_inv sd i a t \<Longrightarrow> mframe s t
                 \<Longrightarrow> length (levels sd t) = length (levels sd s)
                 \<Longrightarrow> l_head (level_at sd i t) = Some p \<Longrightarrow> 0 < remaining (heap t ! a)
                 \<Longrightarrow> J (t, u) \<Longrightarrow> J (match_step sd i a p (t, u))"
  shows "\<exists>s' r'. match_level sd i a (level_front (level_at sd i s)) (s, r) = Some (s', r')
           \<and> match_inv sd i a s'
           \<and> (remaining (heap s' ! a) = 0 \<or> level_empty (level_at sd i s'))
           \<and> mframe s s' \<and> (\<forall>sd'. map fst (levels sd' s') = map fst (levels sd' s))
           \<and> J (s', r')"
proof -
  define I where "I = (\<lambda>pv (sr :: book \<times> order_result).
      match_inv sd i a (fst sr)
      \<and> (0 < remaining (heap (fst sr) ! a) \<longrightarrow> pv = l_head (level_at sd i (fst sr)))
      \<and> mframe s (fst sr) \<and> (\<forall>sd'. map fst (levels sd' (fst sr)) = map fst (levels sd' s))
      \<and> J sr)"
  define V where "V = (\<lambda>sr :: book \<times> order_result.
      length (queue_at sd i (fst sr)) + (if 0 < remaining (heap (fst sr) ! a) then 1 else 0))"
  have I0: "I (level_front (level_at sd i s)) (s, r)"
    using inv J0 by (simp add: I_def level_front_def)
  have step: "I (o_next (heap (fst sr) ! p)) (match_step sd i a p sr)
                 \<and> V (match_step sd i a p sr) < V sr"
    if "I (Some p) sr" "0 < remaining (heap (fst sr) ! a)" for p sr
  proof -
    obtain t u where sr: "sr = (t, u)" by (cases sr)
    from that have mi: "match_inv sd i a t" and hd: "l_head (level_at sd i t) = Some p"
      and pos: "0 < remaining (heap t ! a)" and fr: "mframe s t"
      and ks: "\<forall>sd'. map fst (levels sd' t) = map fst (levels sd' s)"
      and J: "J (t, u)"
      by (simp_all add: I_def sr)
    have len: "length (levels sd t) = length (levels sd s)" using ks by (metis length_map)
    note st = match_step_inv(1-3)[OF mi hd, of u] match_step_inv(4)[OF mi hd]
    note sf = match_step_frame[OF mi hd, where r = u]
    note J' = step[OF mi fr len hd pos J]
    let ?t' = "fst (match_step sd i a p (t, u))"
    from st(2) st(4) have "V (match_step sd i a p sr) < V sr"
      unfolding V_def sr using pos st(3) by (cases "queue_at sd i t") auto
    moreover have "I (o_next (heap t ! p)) (match_step sd i a p (t, u))"
      unfolding I_def using st(1) st(2) mframe_trans[OF fr sf(1)] sf(2) ks J' by auto
    ultimately show ?thesis by (simp add: sr)
  qed
  from match_level_rule[of I, OF I0 step]
  obtain sr' ps where res: "match_level sd i a (level_front (level_at sd i s)) (s, r) = Some sr'"
    and I': "I ps sr'" and ex: "ps = None \<or> \<not> 0 < remaining (heap (fst sr') ! a)"
    by blast
  have "remaining (heap (fst sr') ! a) = 0 \<or> level_empty (level_at sd i (fst sr'))"
    using I' ex unfolding I_def level_empty_def by (auto simp: word_greater_zero_iff)
  with res I' show ?thesis unfolding I_def by (cases sr') auto
qed

lemma best_pos_erase:
  assumes "best_pos sd i t" and "i < length (levels sd t)"
  shows "levels sd t \<noteq> [] \<and> (length (erase_at i (levels sd t)) \<noteq> 0 \<longrightarrow>
           best_pos sd (if sd = Sell then 0 else length (erase_at i (levels sd t)) - 1)
             (set_levels sd (erase_at i (levels sd t)) t))"
  using assms by (auto simp: best_pos_def length_erase_at)

lemma outer_step_gen:
  assumes ci: "cinv {a} t" and ne: "nonempty_levels t" and fr: "mframe s t"
    and i: "i < length (levels sd t)" and bp: "best_pos sd i t" and J0: "J (t, u)"
    and step: "\<And>p t u. match_inv sd i a t \<Longrightarrow> best_pos sd i t \<Longrightarrow> mframe s t
                 \<Longrightarrow> l_head (level_at sd i t) = Some p \<Longrightarrow> 0 < remaining (heap t ! a)
                 \<Longrightarrow> J (t, u) \<Longrightarrow> J (match_step sd i a p (t, u))"
    and erase: "\<And>t u. match_inv sd i a t \<Longrightarrow> best_pos sd i t \<Longrightarrow> mframe s t
                 \<Longrightarrow> level_empty (level_at sd i t)
                 \<Longrightarrow> J (t, u) \<Longrightarrow> J (set_levels sd (erase_at i (levels sd t)) t, u)"
  shows "\<exists>t1 u1. match_level sd i a (level_front (level_at sd i t)) (t, u) = Some (t1, u1)
     \<and> length (levels sd t1) = length (levels sd t)
     \<and> (if level_empty (level_at sd i t1)
         then cinv {a} (set_levels sd (erase_at i (levels sd t1)) t1)
              \<and> nonempty_levels (set_levels sd (erase_at i (levels sd t1)) t1)
              \<and> mframe s (set_levels sd (erase_at i (levels sd t1)) t1)
              \<and> J (set_levels sd (erase_at i (levels sd t1)) t1, u1)
         else cinv {a} t1 \<and> nonempty_levels t1 \<and> mframe s t1 \<and> remaining (heap t1 ! a) = 0
              \<and> J (t1, u1))"
proof -
  have mi: "match_inv sd i a t" using ci i nonempty_others[OF ne] by (simp add: match_inv_def)
  have st: "J (match_step sd i a p (t', u'))"
    if "match_inv sd i a t'" "mframe t t'" "length (levels sd t') = length (levels sd t)"
       "l_head (level_at sd i t') = Some p" "0 < remaining (heap t' ! a)" "J (t', u')" for p t' u'
  proof -
    have "best_pos sd i t'" using bp that(3) by (simp add: best_pos_def)
    from step[OF that(1) this mframe_trans[OF fr that(2)] that(4,5,6)] show ?thesis .
  qed
  from match_level_gen[of sd i a t J u, OF mi J0 st] obtain t1 u1 where
    m: "match_level sd i a (level_front (level_at sd i t)) (t, u) = Some (t1, u1)"
    and mi1: "match_inv sd i a t1"
    and ex: "remaining (heap t1 ! a) = 0 \<or> level_empty (level_at sd i t1)"
    and fr1: "mframe t t1" and ks: "\<forall>sd'. map fst (levels sd' t1) = map fst (levels sd' t)"
    and J1: "J (t1, u1)"
    by blast
  have len: "length (levels sd t1) = length (levels sd t)" using ks by (metis length_map)
  have bp1: "best_pos sd i t1" using bp len by (simp add: best_pos_def)
  show ?thesis
  proof (cases "level_empty (level_at sd i t1)")
    case True
    have "mframe s (set_levels sd (erase_at i (levels sd t1)) t1)"
      using mframe_trans[OF fr fr1] mframe_trans mframe_set_levels by blast
    with True erase_level_inv(1,2)[OF mi1 True] m len
      erase[OF mi1 bp1 mframe_trans[OF fr fr1] True J1]
    show ?thesis by auto
  next
    case False
    with ex have r0: "remaining (heap t1 ! a) = 0" by simp
    from mi1 have "cinv {a} t1" "others_nonempty sd i t1" by (simp_all add: match_inv_def)
    with False others_nonempty_all[of sd i t1] r0 mframe_trans[OF fr fr1] m len J1
    show ?thesis by auto
  qed
qed

lemma match_against_asks_gen:
  assumes ci: "cinv {a} s" and ne: "nonempty_levels s" and J0: "J (s, r)"
    and step: "\<And>i p t u. match_inv Sell i a t \<Longrightarrow> best_pos Sell i t \<Longrightarrow> mframe s t
                 \<Longrightarrow> l_head (level_at Sell i t) = Some p \<Longrightarrow> 0 < remaining (heap t ! a)
                 \<Longrightarrow> J (t, u) \<Longrightarrow> J (match_step Sell i a p (t, u))"
    and erase: "\<And>i t u. match_inv Sell i a t \<Longrightarrow> best_pos Sell i t \<Longrightarrow> mframe s t
                 \<Longrightarrow> level_empty (level_at Sell i t)
                 \<Longrightarrow> J (t, u) \<Longrightarrow> J (set_levels Sell (erase_at i (levels Sell t)) t, u)"
  shows "\<exists>s' r'. match_against_asks 0 a (s, r) = Some (s', r')
           \<and> cinv {a} s' \<and> nonempty_levels s' \<and> mframe s s' \<and> J (s', r')
           \<and> (remaining (heap s' ! a) = 0 \<or> asks s' = [] \<or> asks_stop 0 a (s', r'))"
proof -
  define I where "I = (\<lambda>(it :: nat) (sr :: book \<times> order_result).
      cinv {a} (fst sr) \<and> nonempty_levels (fst sr) \<and> mframe s (fst sr) \<and> J sr
      \<and> (it = 0 \<or> remaining (heap (fst sr) ! a) = 0))"
  define V where "V = (\<lambda>x :: nat \<times> book \<times> order_result.
      length (asks (fst (snd x))) + (if 0 < remaining (heap (fst (snd x)) ! a) then 1 else 0))"
  have I0: "I (fst (0, (s, r))) (snd (0, (s, r)))" using ci ne J0 by (simp add: I_def)
  have step: "\<exists>sr1. match_level Sell it a (level_front (level_at Sell it (fst sr))) sr = Some sr1
          \<and> I (fst (asks_next it sr1)) (snd (asks_next it sr1))
          \<and> V (asks_next it sr1) < V (it, sr)"
    if "I it sr" "it < length (asks (fst sr))" "0 < remaining (heap (fst sr) ! a)" for it sr
  proof -
    obtain t u where sr: "sr = (t, u)" by (cases sr)
    from that have c: "cinv {a} t" and n: "nonempty_levels t" and f: "mframe s t"
      and i: "it < length (levels Sell t)" and pos: "0 < remaining (heap t ! a)"
      and J: "J (t, u)" and it0: "it = 0"
      by (auto simp: I_def sr levels_bids_asks)
    have bp: "best_pos Sell it t" using it0 by (simp add: best_pos_def)
    from outer_step_gen[of a t s it Sell J u, OF c n f i bp J step erase] obtain t1 u1 where
      m: "match_level Sell it a (level_front (level_at Sell it t)) (t, u) = Some (t1, u1)"
      and len: "length (levels Sell t1) = length (levels Sell t)"
      and r: "if level_empty (level_at Sell it t1)
         then cinv {a} (set_levels Sell (erase_at it (levels Sell t1)) t1)
              \<and> nonempty_levels (set_levels Sell (erase_at it (levels Sell t1)) t1)
              \<and> mframe s (set_levels Sell (erase_at it (levels Sell t1)) t1)
              \<and> J (set_levels Sell (erase_at it (levels Sell t1)) t1, u1)
         else cinv {a} t1 \<and> nonempty_levels t1 \<and> mframe s t1 \<and> remaining (heap t1 ! a) = 0
              \<and> J (t1, u1)"
      by blast
    have "I (fst (asks_next it (t1, u1))) (snd (asks_next it (t1, u1)))
          \<and> V (asks_next it (t1, u1)) < V (it, (t, u))"
      using r i len pos it0
      by (auto simp: I_def V_def asks_next_def set_levels_bids_asks levels_bids_asks length_erase_at
               split: if_splits)
    with m show ?thesis unfolding sr by auto
  qed
  from match_against_asks_rule[of I "(0, (s, r))" a V, OF I0 step]
  obtain sr' it' where res: "match_against_asks 0 a (s, r) = Some sr'" and I': "I it' sr'"
    and ex: "\<not> (it' < length (asks (fst sr')) \<and> 0 < remaining (heap (fst sr') ! a)
                      \<and> \<not> asks_stop it' a sr')"
    by auto
  have "remaining (heap (fst sr') ! a) = 0 \<or> asks (fst sr') = [] \<or> asks_stop 0 a sr'"
    using I' ex unfolding I_def by (auto simp: word_greater_zero_iff)
  with res I' show ?thesis unfolding I_def by (cases sr') auto
qed

lemma match_against_bids_gen:
  assumes ci: "cinv {a} s" and ne: "nonempty_levels s" and J0: "J (s, r)"
    and step: "\<And>i p t u. match_inv Buy i a t \<Longrightarrow> best_pos Buy i t \<Longrightarrow> mframe s t
                 \<Longrightarrow> l_head (level_at Buy i t) = Some p \<Longrightarrow> 0 < remaining (heap t ! a)
                 \<Longrightarrow> J (t, u) \<Longrightarrow> J (match_step Buy i a p (t, u))"
    and erase: "\<And>i t u. match_inv Buy i a t \<Longrightarrow> best_pos Buy i t \<Longrightarrow> mframe s t
                 \<Longrightarrow> level_empty (level_at Buy i t)
                 \<Longrightarrow> J (t, u) \<Longrightarrow> J (set_levels Buy (erase_at i (levels Buy t)) t, u)"
  shows "\<exists>s' r'. match_against_bids 0 a (s, r) = Some (s', r')
           \<and> cinv {a} s' \<and> nonempty_levels s' \<and> mframe s s' \<and> J (s', r')
           \<and> (remaining (heap s' ! a) = 0 \<or> bids s' = [] \<or> bids_stop 0 a (s', r'))"
proof -
  define I where "I = (\<lambda>(rit :: nat) (sr :: book \<times> order_result).
      cinv {a} (fst sr) \<and> nonempty_levels (fst sr) \<and> mframe s (fst sr) \<and> J sr
      \<and> (rit = 0 \<or> remaining (heap (fst sr) ! a) = 0))"
  define V where "V = (\<lambda>x :: nat \<times> book \<times> order_result.
      length (bids (fst (snd x))) + (if 0 < remaining (heap (fst (snd x)) ! a) then 1 else 0))"
  have I0: "I (fst (0, (s, r))) (snd (0, (s, r)))" using ci ne J0 by (simp add: I_def)
  have step: "\<exists>sr1. match_level Buy (length (bids (fst sr)) - 1 - rit) a
                 (level_front (level_at Buy (length (bids (fst sr)) - 1 - rit) (fst sr))) sr = Some sr1
          \<and> I (fst (bids_next rit (length (bids (fst sr)) - 1 - rit) sr1))
               (snd (bids_next rit (length (bids (fst sr)) - 1 - rit) sr1))
          \<and> V (bids_next rit (length (bids (fst sr)) - 1 - rit) sr1) < V (rit, sr)"
    if "I rit sr" "rit < length (bids (fst sr))" "0 < remaining (heap (fst sr) ! a)" for rit sr
  proof -
    obtain t u where sr: "sr = (t, u)" by (cases sr)
    let ?i = "length (bids t) - 1 - rit"
    from that have c: "cinv {a} t" and n: "nonempty_levels t" and f: "mframe s t"
      and i: "?i < length (levels Buy t)" and pos: "0 < remaining (heap t ! a)"
      and J: "J (t, u)" and it0: "rit = 0"
      by (auto simp: I_def sr levels_bids_asks)
    have bp: "best_pos Buy ?i t" using it0 i by (simp add: best_pos_def levels_bids_asks)
    from outer_step_gen[of a t s ?i Buy J u, OF c n f i bp J step erase] obtain t1 u1 where
      m: "match_level Buy ?i a (level_front (level_at Buy ?i t)) (t, u) = Some (t1, u1)"
      and len: "length (levels Buy t1) = length (levels Buy t)"
      and r: "if level_empty (level_at Buy ?i t1)
         then cinv {a} (set_levels Buy (erase_at ?i (levels Buy t1)) t1)
              \<and> nonempty_levels (set_levels Buy (erase_at ?i (levels Buy t1)) t1)
              \<and> mframe s (set_levels Buy (erase_at ?i (levels Buy t1)) t1)
              \<and> J (set_levels Buy (erase_at ?i (levels Buy t1)) t1, u1)
         else cinv {a} t1 \<and> nonempty_levels t1 \<and> mframe s t1 \<and> remaining (heap t1 ! a) = 0
              \<and> J (t1, u1)"
      by blast
    have "I (fst (bids_next rit ?i (t1, u1))) (snd (bids_next rit ?i (t1, u1)))
          \<and> V (bids_next rit ?i (t1, u1)) < V (rit, (t, u))"
      using r i len pos
      by (auto simp: I_def V_def bids_next_def set_levels_bids_asks levels_bids_asks length_erase_at
               split: if_splits)
    with m show ?thesis unfolding sr by auto
  qed
  from match_against_bids_rule[of I "(0, (s, r))" a V, OF I0 step]
  obtain sr' rit' where res: "match_against_bids 0 a (s, r) = Some sr'" and I': "I rit' sr'"
    and ex: "\<not> (rit' < length (bids (fst sr')) \<and> 0 < remaining (heap (fst sr') ! a)
                      \<and> \<not> bids_stop rit' a sr')"
    by auto
  have "remaining (heap (fst sr') ! a) = 0 \<or> bids (fst sr') = [] \<or> bids_stop 0 a sr'"
    using I' ex unfolding I_def by (auto simp: word_greater_zero_iff)
  with res I' show ?thesis unfolding I_def by (cases sr') auto
qed

lemma match_order_gen:
  assumes ci: "cinv {a} s" and ne: "nonempty_levels s" and J0: "J (s, r)"
    and step: "\<And>sd i p t u. match_inv sd i a t \<Longrightarrow> best_pos sd i t \<Longrightarrow> mframe s t
                 \<Longrightarrow> sd = opp (o_side (heap s ! a))
                 \<Longrightarrow> l_head (level_at sd i t) = Some p \<Longrightarrow> 0 < remaining (heap t ! a)
                 \<Longrightarrow> J (t, u) \<Longrightarrow> J (match_step sd i a p (t, u))"
    and erase: "\<And>sd i t u. match_inv sd i a t \<Longrightarrow> best_pos sd i t \<Longrightarrow> mframe s t
                 \<Longrightarrow> sd = opp (o_side (heap s ! a))
                 \<Longrightarrow> level_empty (level_at sd i t)
                 \<Longrightarrow> J (t, u) \<Longrightarrow> J (set_levels sd (erase_at i (levels sd t)) t, u)"
  shows "\<exists>s' r'. match_order a (s, r) = Some (s', r')
           \<and> cinv {a} s' \<and> nonempty_levels s' \<and> mframe s s' \<and> J (s', r')
           \<and> (remaining (heap s' ! a) = 0
                \<or> (if o_side (heap s ! a) = Buy then asks s' = [] \<or> asks_stop 0 a (s', r')
                    else bids s' = [] \<or> bids_stop 0 a (s', r')))"
proof (cases "o_side (heap s ! a) = Buy")
  case True
  then have o: "Sell = opp (o_side (heap s ! a))" by (simp add: opp_def)
  have st: "J (match_step Sell i a p (t, u))"
    if "match_inv Sell i a t" "best_pos Sell i t" "mframe s t"
       "l_head (level_at Sell i t) = Some p" "0 < remaining (heap t ! a)" "J (t, u)" for i p t u
    by (rule step[OF that(1,2,3) o that(4,5,6)])
  have er: "J (set_levels Sell (erase_at i (levels Sell t)) t, u)"
    if "match_inv Sell i a t" "best_pos Sell i t" "mframe s t"
       "level_empty (level_at Sell i t)" "J (t, u)" for i t u
    by (rule erase[OF that(1,2,3) o that(4,5)])
  from match_against_asks_gen[of a s J r, OF ci ne J0 st er] obtain s' r' where
    "match_against_asks 0 a (s, r) = Some (s', r')" "cinv {a} s'" "nonempty_levels s'"
    "mframe s s'" "J (s', r')"
    "remaining (heap s' ! a) = 0 \<or> asks s' = [] \<or> asks_stop 0 a (s', r')"
    by blast
  then show ?thesis using True by (simp add: match_order_def)
next
  case False
  then have o: "Buy = opp (o_side (heap s ! a))" by (simp add: opp_def)
  have st: "J (match_step Buy i a p (t, u))"
    if "match_inv Buy i a t" "best_pos Buy i t" "mframe s t"
       "l_head (level_at Buy i t) = Some p" "0 < remaining (heap t ! a)" "J (t, u)" for i p t u
    by (rule step[OF that(1,2,3) o that(4,5,6)])
  have er: "J (set_levels Buy (erase_at i (levels Buy t)) t, u)"
    if "match_inv Buy i a t" "best_pos Buy i t" "mframe s t"
       "level_empty (level_at Buy i t)" "J (t, u)" for i t u
    by (rule erase[OF that(1,2,3) o that(4,5)])
  from match_against_bids_gen[of a s J r, OF ci ne J0 st er] obtain s' r' where
    "match_against_bids 0 a (s, r) = Some (s', r')" "cinv {a} s'" "nonempty_levels s'"
    "mframe s s'" "J (s', r')"
    "remaining (heap s' ! a) = 0 \<or> bids s' = [] \<or> bids_stop 0 a (s', r')"
    by blast
  then show ?thesis using False by (simp add: match_order_def)
qed

section \<open>A submission, phase by phase\<close>


lemma rest_order_effect:
  assumes inv: "cinv {a} sm" and ne: "nonempty_levels sm"
  shows "orders (rest_order a sm) = AList.update (o_id (heap sm ! a)) a (orders sm)"
    and "length (heap (rest_order a sm)) = length (heap sm)"
    and "data (heap (rest_order a sm) ! j)
           = data (if j = a \<and> 0 < o_filled_quantity (heap sm ! a)
                   then (heap sm ! a)\<lparr>o_status := PartiallyFilled\<rparr> else heap sm ! j)"
    and "next_id (rest_order a sm) = next_id sm"
    and "timestamp_counter (rest_order a sm) = timestamp_counter sm"
    and "trade_count (rest_order a sm) = trade_count sm"
    and "total_volume (rest_order a sm) = total_volume sm"
    and "pool_free_stack (pool (rest_order a sm)) = pool_free_stack (pool sm)"
    and "pool_free_count (pool (rest_order a sm)) = pool_free_count (pool sm)"
    and "pool_capacity (pool (rest_order a sm)) = pool_capacity (pool sm)"
proof -
  let ?t1 = "if 0 < o_filled_quantity (heap sm ! a)
             then upd_order a (\<lambda>ord. ord\<lparr>o_status := PartiallyFilled\<rparr>) sm else sm"
  let ?t2 = "insert_into_book a ?t1"
  have c1: "cinv {a} ?t1" and n1: "nonempty_levels ?t1"
    using cinv_upd_unqueued[OF inv, of a] inv ne by auto
  note ib = insert_into_book_inv[OF c1 n1]
  from inv have al: "a < length (heap sm)" by (simp add: cinv_def)
  have t3: "rest_order a sm = ?t2\<lparr>orders := AList.update (o_id (heap ?t2 ! a)) a (orders ?t2)\<rparr>"
    by (simp add: rest_order_def Let_def)
  have ida: "o_id (heap ?t2 ! a) = o_id (heap sm ! a)"
    using data_fields[OF ib(5)[of a]] al by (simp add: nth_upd)
  show "orders (rest_order a sm) = AList.update (o_id (heap sm ! a)) a (orders sm)"
    unfolding t3 using ida ib(6) by simp
  show "length (heap (rest_order a sm)) = length (heap sm)"
    unfolding t3 using ib(4) by simp
  show "data (heap (rest_order a sm) ! j)
           = data (if j = a \<and> 0 < o_filled_quantity (heap sm ! a)
                   then (heap sm ! a)\<lparr>o_status := PartiallyFilled\<rparr> else heap sm ! j)"
    unfolding t3 using ib(5)[of j] al by (simp add: nth_upd)
  show "pool_free_stack (pool (rest_order a sm)) = pool_free_stack (pool sm)"
    "pool_free_count (pool (rest_order a sm)) = pool_free_count (pool sm)"
    "pool_capacity (pool (rest_order a sm)) = pool_capacity (pool sm)"
    unfolding t3 using ib(7,8,9) by simp_all
  show "next_id (rest_order a sm) = next_id sm"
    "timestamp_counter (rest_order a sm) = timestamp_counter sm"
    "trade_count (rest_order a sm) = trade_count sm"
    "total_volume (rest_order a sm) = total_volume sm"
    unfolding t3 by (simp_all add: insert_into_book_def Let_def)
qed

lemma add_order_begin:
  assumes inv: "book_inv s" and fc: "pool_free_count (pool s) \<noteq> 0"
  shows "\<exists>a pl. allocate (pool s) = Inr (a, pl) \<and> a = next_slot s \<and> a < length (heap s)
           \<and> a \<notin> qset s
           \<and> cinv {a} (fst (begin_order a sd ty pr qty (s\<lparr>pool := pl\<rparr>)))
           \<and> nonempty_levels (fst (begin_order a sd ty pr qty (s\<lparr>pool := pl\<rparr>)))
           \<and> qset (fst (begin_order a sd ty pr qty (s\<lparr>pool := pl\<rparr>))) = qset s
           \<and> heap (fst (begin_order a sd ty pr qty (s\<lparr>pool := pl\<rparr>)))
                = (heap s)[a := \<lparr>o_id = next_id s + 1, o_price = pr, o_quantity = qty,
                      o_filled_quantity = 0, o_side = sd, o_type = ty, o_status = Active,
                      o_prev = None, o_next = None, o_timestamp = timestamp_counter s + 1\<rparr>]
           \<and> (\<forall>sd'. levels sd' (fst (begin_order a sd ty pr qty (s\<lparr>pool := pl\<rparr>))) = levels sd' s)
           \<and> orders (fst (begin_order a sd ty pr qty (s\<lparr>pool := pl\<rparr>))) = orders s
           \<and> next_id (fst (begin_order a sd ty pr qty (s\<lparr>pool := pl\<rparr>))) = next_id s + 1
           \<and> timestamp_counter (fst (begin_order a sd ty pr qty (s\<lparr>pool := pl\<rparr>)))
                = timestamp_counter s + 1
           \<and> trade_count (fst (begin_order a sd ty pr qty (s\<lparr>pool := pl\<rparr>))) = trade_count s
           \<and> total_volume (fst (begin_order a sd ty pr qty (s\<lparr>pool := pl\<rparr>))) = total_volume s
           \<and> snd (begin_order a sd ty pr qty (s\<lparr>pool := pl\<rparr>))
                = order_result_init\<lparr>r_order_id := next_id s + 1\<rparr>
           \<and> (\<forall>smr. match_order a (begin_order a sd ty pr qty (s\<lparr>pool := pl\<rparr>)) = Some smr \<longrightarrow>
                 add_order sd ty pr qty s
                   = Some (Inr (fst (finish_order ty a smr)), snd (finish_order ty a smr)))"
proof -
  from inv have ci: "core_inv s" and ne: "nonempty_levels s" by (simp_all add: book_inv_def)
  from begin_order_inv[OF ci fc, of sd ty pr qty] obtain a pl where
    al: "allocate (pool s) = Inr (a, pl)" and a: "a = next_slot s" and an: "a < length (heap s)"
    and aq: "a \<notin> qset s"
    and po: "pool_orders pl = (heap s)[a := reset (heap s ! a)]"
    and cB: "cinv {a} (fst (begin_order a sd ty pr qty (s\<lparr>pool := pl\<rparr>)))"
    and qB: "qset (fst (begin_order a sd ty pr qty (s\<lparr>pool := pl\<rparr>))) = qset s"
    by blast
  let ?B = "begin_order a sd ty pr qty (s\<lparr>pool := pl\<rparr>)"
  have l1: "a < length (heap (s\<lparr>pool := pl\<rparr>))" using an by (simp add: po)
  note be = begin_order_effect[OF l1, where sd = sd and ty = ty and pr = pr and qty = qty]
  have lv: "levels sd' (fst ?B) = levels sd' s" for sd'
    by (simp only: be(2) levels_simps)
  then have nB: "nonempty_levels (fst ?B)" using ne nonempty_levels_cong by blast
  have hB: "heap (fst ?B) = (heap s)[a := \<lparr>o_id = next_id s + 1, o_price = pr, o_quantity = qty,
                      o_filled_quantity = 0, o_side = sd, o_type = ty, o_status = Active,
                      o_prev = None, o_next = None, o_timestamp = timestamp_counter s + 1\<rparr>]"
    unfolding be(1) using an by (simp add: po reset_def order_all_fields)
  have ad: "add_order sd ty pr qty s = Some (Inr (fst (finish_order ty a smr)), snd (finish_order ty a smr))"
    if "match_order a ?B = Some smr" for smr
    using that al by (simp add: add_order_def)
  show ?thesis
    using al a an aq cB nB qB hB lv ad be(3,8,9,10,11,12) by (intro exI[of _ a] exI[of _ pl]) simp
qed


section \<open>Ids that are not in the index\<close>








lemma submission_cases:
  assumes "case x of Some (Inr r, s') \<Rightarrow> P r s' | _ \<Rightarrow> False"
  shows "\<exists>r s'. x = Some (Inr r, s') \<and> P r s'"
proof (cases x)
  case None
  with assms show ?thesis by simp
next
  case (Some y)
  obtain e s' where y: "y = (e, s')" by (cases y)
  show ?thesis
  proof (cases e)
    case (Inl a)
    with assms Some y show ?thesis by simp
  next
    case (Inr r)
    with assms Some y show ?thesis by simp
  qed
qed

section \<open>Submissions that do not match\<close>

lemma match_order_idle:
  assumes "remaining (heap s ! a) = 0
           \<or> (o_type (heap s ! a) = Limit \<and> \<not> crosses (o_side (heap s ! a)) (o_price (heap s ! a)) s)"
  shows "match_order a (s, r) = Some (s, r)"
proof (cases "o_side (heap s ! a) = Buy")
  case True
  have "match_against_asks 0 a (s, r) = Some (s, r)"
    using assms True
    by (subst match_against_asks_unfold)
       (auto simp: asks_stop_def crosses_def hd_conv_nth not_le)
  with True show ?thesis by (simp add: match_order_def)
next
  case False
  have "match_against_bids 0 a (s, r) = Some (s, r)"
    using assms False
    by (subst match_against_bids_unfold)
       (auto simp: bids_stop_def crosses_def last_conv_nth not_le)
  with False show ?thesis by (simp add: match_order_def)
qed

lemma add_order_zero_quantity:
  assumes inv: "book_inv s" and fc: "pool_free_count (pool s) \<noteq> 0"
  shows "\<exists>s'. add_order sd ty pr 0 s
             = Some (Inr \<lparr>r_order_id = next_id s + 1, r_status = Filled, r_filled_quantity = 0,
                         r_remaining_quantity = 0, r_trades = []\<rparr>, s')
           \<and> orders s' = orders s \<and> bids s' = bids s \<and> asks s' = asks s
           \<and> pool_free_count (pool s') = pool_free_count (pool s)"
proof -
  from add_order_begin[OF inv fc, of sd ty pr 0] obtain a pl where
    an: "a < length (heap s)"
    and hB: "heap (fst (begin_order a sd ty pr 0 (s\<lparr>pool := pl\<rparr>)))
                = (heap s)[a := \<lparr>o_id = next_id s + 1, o_price = pr, o_quantity = 0,
                      o_filled_quantity = 0, o_side = sd, o_type = ty, o_status = Active,
                      o_prev = None, o_next = None, o_timestamp = timestamp_counter s + 1\<rparr>]"
    and lB: "\<forall>sd'. levels sd' (fst (begin_order a sd ty pr 0 (s\<lparr>pool := pl\<rparr>))) = levels sd' s"
    and oB: "orders (fst (begin_order a sd ty pr 0 (s\<lparr>pool := pl\<rparr>))) = orders s"
    and rB: "snd (begin_order a sd ty pr 0 (s\<lparr>pool := pl\<rparr>))
                = order_result_init\<lparr>r_order_id := next_id s + 1\<rparr>"
    and al: "allocate (pool s) = Inr (a, pl)"
    and fin: "\<forall>smr. match_order a (begin_order a sd ty pr 0 (s\<lparr>pool := pl\<rparr>)) = Some smr \<longrightarrow>
                 add_order sd ty pr 0 s
                   = Some (Inr (fst (finish_order ty a smr)), snd (finish_order ty a smr))"
    by blast
  define B where "B = fst (begin_order a sd ty pr 0 (s\<lparr>pool := pl\<rparr>))"
  define rb where "rb = snd (begin_order a sd ty pr 0 (s\<lparr>pool := pl\<rparr>))"
  have Bp: "begin_order a sd ty pr 0 (s\<lparr>pool := pl\<rparr>) = (B, rb)" by (simp add: B_def rb_def)
  have ha: "heap B ! a = \<lparr>o_id = next_id s + 1, o_price = pr, o_quantity = 0,
                      o_filled_quantity = 0, o_side = sd, o_type = ty, o_status = Active,
                      o_prev = None, o_next = None, o_timestamp = timestamp_counter s + 1\<rparr>"
    using an by (simp add: B_def hB)
  have "match_order a (B, rb) = Some (B, rb)"
    by (rule match_order_idle) (simp add: ha remaining_def)
  with fin Bp have ad: "add_order sd ty pr 0 s
      = Some (Inr (fst (finish_order ty a (B, rb))), snd (finish_order ty a (B, rb)))"
    by simp
  have fl: "is_filled (heap B ! a)" by (simp add: ha is_filled_def)
  have r: "fst (finish_order ty a (B, rb))
             = \<lparr>r_order_id = next_id s + 1, r_status = Filled, r_filled_quantity = 0,
                r_remaining_quantity = 0, r_trades = []\<rparr>"
    using fl an by (simp add: finish_order_def Let_def rb_def rB order_result_init_def ha B_def hB)
  have s': "snd (finish_order ty a (B, rb))
             = (upd_order a (\<lambda>ord. ord\<lparr>o_status := Filled\<rparr>) B)
                 \<lparr>pool := deallocate a (pool (upd_order a (\<lambda>ord. ord\<lparr>o_status := Filled\<rparr>) B))\<rparr>"
    using fl by (simp add: finish_order_def Let_def)
  have lv: "levels sd' (snd (finish_order ty a (B, rb))) = levels sd' s" for sd'
    unfolding s' using lB by (simp add: B_def)
  have "pool_free_count pl = pool_free_count (pool s) - 1"
    using al fc by (auto simp: allocate_def Let_def)
  moreover have "pool_free_count (pool B) = pool_free_count pl"
    using begin_order_effect(5)[of a "s\<lparr>pool := pl\<rparr>" sd ty pr 0] an al
    by (auto simp: B_def allocate_def Let_def heap_def split: if_splits)
  ultimately have fcs: "pool_free_count (pool (snd (finish_order ty a (B, rb)))) = pool_free_count (pool s)"
    unfolding s' using fc by (simp add: deallocate_def)
  have os: "orders (snd (finish_order ty a (B, rb))) = orders s"
    unfolding s' using oB by (simp add: B_def)
  show ?thesis
    using ad r lv[of Buy] lv[of Sell] fcs os by (simp add: levels_def)
qed

lemma add_order_rests:
  assumes inv: "book_inv s" and fc: "pool_free_count (pool s) \<noteq> 0"
    and q: "qty \<noteq> 0" and nc: "\<not> crosses sd pr s"
  shows "\<exists>a pl. allocate (pool s) = Inr (a, pl) \<and> a = next_slot s
           \<and> add_order sd Limit pr qty s
               = Some (Inr \<lparr>r_order_id = next_id s + 1, r_status = Active, r_filled_quantity = 0,
                           r_remaining_quantity = qty, r_trades = []\<rparr>,
                       rest_order a (fst (begin_order a sd Limit pr qty (s\<lparr>pool := pl\<rparr>))))
           \<and> map_of (orders (rest_order a (fst (begin_order a sd Limit pr qty (s\<lparr>pool := pl\<rparr>)))))
                 (next_id s + 1) = Some a
           \<and> a \<in> qset (rest_order a (fst (begin_order a sd Limit pr qty (s\<lparr>pool := pl\<rparr>))))"
proof -
  from add_order_begin[OF inv fc, of sd Limit pr qty] obtain a pl where
    an: "a < length (heap s)" and a: "a = next_slot s"
    and cB: "cinv {a} (fst (begin_order a sd Limit pr qty (s\<lparr>pool := pl\<rparr>)))"
    and nB: "nonempty_levels (fst (begin_order a sd Limit pr qty (s\<lparr>pool := pl\<rparr>)))"
    and hB: "heap (fst (begin_order a sd Limit pr qty (s\<lparr>pool := pl\<rparr>)))
                = (heap s)[a := \<lparr>o_id = next_id s + 1, o_price = pr, o_quantity = qty,
                      o_filled_quantity = 0, o_side = sd, o_type = Limit, o_status = Active,
                      o_prev = None, o_next = None, o_timestamp = timestamp_counter s + 1\<rparr>]"
    and lB: "\<forall>sd'. levels sd' (fst (begin_order a sd Limit pr qty (s\<lparr>pool := pl\<rparr>))) = levels sd' s"
    and rB: "snd (begin_order a sd Limit pr qty (s\<lparr>pool := pl\<rparr>))
                = order_result_init\<lparr>r_order_id := next_id s + 1\<rparr>"
    and al: "allocate (pool s) = Inr (a, pl)"
    and fin: "\<forall>smr. match_order a (begin_order a sd Limit pr qty (s\<lparr>pool := pl\<rparr>)) = Some smr \<longrightarrow>
                 add_order sd Limit pr qty s
                   = Some (Inr (fst (finish_order Limit a smr)), snd (finish_order Limit a smr))"
    by blast
  define B where "B = fst (begin_order a sd Limit pr qty (s\<lparr>pool := pl\<rparr>))"
  define rb where "rb = snd (begin_order a sd Limit pr qty (s\<lparr>pool := pl\<rparr>))"
  have Bp: "begin_order a sd Limit pr qty (s\<lparr>pool := pl\<rparr>) = (B, rb)" by (simp add: B_def rb_def)
  have ha: "heap B ! a = \<lparr>o_id = next_id s + 1, o_price = pr, o_quantity = qty,
                      o_filled_quantity = 0, o_side = sd, o_type = Limit, o_status = Active,
                      o_prev = None, o_next = None, o_timestamp = timestamp_counter s + 1\<rparr>"
    using an by (simp add: B_def hB)
  have "bids B = bids s" "asks B = asks s"
    using lB[rule_format, of Buy] lB[rule_format, of Sell] by (simp_all add: B_def levels_def)
  then have cr: "crosses sd pr B = crosses sd pr s"
    by (simp add: crosses_def)
  have "match_order a (B, rb) = Some (B, rb)"
    by (rule match_order_idle) (simp add: ha cr nc)
  with fin Bp have ad: "add_order sd Limit pr qty s
      = Some (Inr (fst (finish_order Limit a (B, rb))), snd (finish_order Limit a (B, rb)))"
    by simp
  have nf: "\<not> is_filled (heap B ! a)" using q by (simp add: ha is_filled_def word_le_nat_alt unat_eq_zero)
  note ro = rest_order_effect[OF cB[folded B_def] nB[folded B_def]]
  have da: "data (heap (rest_order a B) ! a) = data (heap B ! a)"
    using ro(3)[of a] by (simp add: ha)
  have r: "fst (finish_order Limit a (B, rb))
             = \<lparr>r_order_id = next_id s + 1, r_status = Active, r_filled_quantity = 0,
                r_remaining_quantity = qty, r_trades = []\<rparr>"
    using nf data_fields[OF da]
    by (simp add: finish_order_def Let_def rb_def rB order_result_init_def ha remaining_def)
  have s': "snd (finish_order Limit a (B, rb)) = rest_order a B"
    using nf by (simp add: finish_order_def Let_def)
  have mo: "map_of (orders (rest_order a B)) (next_id s + 1) = Some a"
    unfolding ro(1) by (simp add: ha update_conv')
  have aq: "a \<in> qset (rest_order a B)"
    using rest_order_inv(3)[OF cB[folded B_def] nB[folded B_def]] by simp
  show ?thesis
    using al a ad r s' mo aq unfolding B_def by (intro exI[of _ a] exI[of _ pl]) simp
qed

section \<open>Cancelling\<close>






section \<open>Modifying\<close>

lemma modify_order_reduce:
  assumes inv: "book_inv s" and mo: "map_of (orders s) oid = Some p"
    and lo: "o_filled_quantity (heap s ! p) < nq" and hi: "nq < o_quantity (heap s ! p)"
  shows "\<exists>lv. map_of (levels (o_side (heap s ! p)) s) (o_price (heap s ! p)) = Some lv
           \<and> p \<in> set (queue_of (heap s) lv)
           \<and> modify_order oid nq s
               = Some (Inr True,
                   set_levels (o_side (heap s ! p))
                     (set_level (o_price (heap s ! p))
                        (lv\<lparr>l_total_quantity := l_total_quantity lv
                              - (remaining (heap s ! p) - remaining ((heap s ! p)\<lparr>o_quantity := nq\<rparr>))\<rparr>)
                        (levels (o_side (heap s ! p)) s))
                     (upd_order p (\<lambda>ord. ord\<lparr>o_quantity := nq\<rparr>) s))
           \<and> book_inv (set_levels (o_side (heap s ! p))
                     (set_level (o_price (heap s ! p))
                        (lv\<lparr>l_total_quantity := l_total_quantity lv
                              - (remaining (heap s ! p) - remaining ((heap s ! p)\<lparr>o_quantity := nq\<rparr>))\<rparr>)
                        (levels (o_side (heap s ! p)) s))
                     (upd_order p (\<lambda>ord. ord\<lparr>o_quantity := nq\<rparr>) s))
           \<and> (\<forall>sd' e. e \<in> set (levels sd' s) \<longrightarrow>
                 queue_of ((heap s)[p := (heap s ! p)\<lparr>o_quantity := nq\<rparr>]) (snd e)
                   = queue_of (heap s) (snd e))"
proof -
  from inv have ci: "core_inv s" and ne: "nonempty_levels s" by (simp_all add: book_inv_def)
  from ci have LVs: "LV s" and io: "idx_ok (heap s) (orders s) (qset s)"
    and po: "pool_ok (length (heap s)) (pool s) (qset s)" by (simp_all add: core_inv_LV)
  define sd where "sd = o_side (heap s ! p)"
  define k where "k = o_price (heap s ! p)"
  from idx_lookup[OF ci mo] obtain i where i: "i < length (levels sd s)"
    and ki: "fst (levels sd s ! i) = k"
    and pin: "p \<in> set (queue_of (heap s) (snd (levels sd s ! i)))"
    and ml: "map_of (levels sd s) k = Some (snd (levels sd s ! i))"
    unfolding sd_def k_def by blast
  define lv where "lv = snd (levels sd s ! i)"
  define lv' where "lv' = lv\<lparr>l_total_quantity := l_total_quantity lv
                     - (remaining (heap s ! p) - remaining ((heap s ! p)\<lparr>o_quantity := nq\<rparr>))\<rparr>"
  define s1 where "s1 = upd_order p (\<lambda>ord. ord\<lparr>o_quantity := nq\<rparr>) s"
  define s2 where "s2 = set_levels sd (set_level k lv' (levels sd s)) s1"
  note pin' = pin[folded lv_def] and ml' = ml[folded lv_def]
  have mem: "(k, lv) \<in> set (levels sd s)" using ml' by (rule map_of_SomeD)
  have pq: "p \<in> qset s" using queue_subset_qset[OF mem] pin' by auto
  have pl: "p < length (heap s)" by (rule qset_bound[OF LVs pq])
  have dk: "distinct (map fst (levels sd s))" by (rule LV_distinct_keys[OF LVs])
  have h1: "heap s1 = (heap s)[p := (heap s ! p)\<lparr>o_quantity := nq\<rparr>]" by (simp add: s1_def)
  have h2: "heap s2 = (heap s)[p := (heap s ! p)\<lparr>o_quantity := nq\<rparr>]" by (simp add: s2_def h1)
  have l1: "levels sd' s1 = levels sd' s" for sd' by (simp add: s1_def)
  have hp1: "heap s1 ! p = (heap s ! p)\<lparr>o_quantity := nq\<rparr>" using pl by (simp add: h1)
  have nle: "\<not> nq \<le> o_filled_quantity (heap s ! p)" using lo by simp
  have sp: "o_side ((heap s ! p)\<lparr>o_quantity := nq\<rparr>) = sd" "o_price ((heap s ! p)\<lparr>o_quantity := nq\<rparr>) = k"
    by (simp_all add: sd_def k_def)
  have md: "modify_order oid nq s = Some (Inr True, s2)"
    unfolding modify_order_def
    by (simp add: mo nle hi Let_def s1_def[symmetric] hp1 sp l1 ml' update_set_level[OF dk ml']
          lv'_def s2_def del: heap_simps)
  have ok: "level_ok (heap s) sd (k, lv)" using lv_inv_level_ok[OF LV_side[OF LVs] mem] .
  have len: "length (heap s2) = length (heap s)" by (simp add: h2)
  have frame: "heap s2 ! j = heap s ! j" if "j \<notin> set (queue_of (heap s) lv)" "j \<notin> {}" for j
    using that pin' by (auto simp: h2 nth_upd)
  have links: "o_prev (heap s2 ! j) = o_prev (heap s ! j) \<and> o_next (heap s2 ! j) = o_next (heap s ! j)
      \<and> o_side (heap s2 ! j) = o_side (heap s ! j) \<and> o_price (heap s2 ! j) = o_price (heap s ! j)" for j
    by (simp add: h2 nth_upd)
  have rem: "remaining (heap s2 ! j) = remaining (heap s ! j)"
    if "j \<in> set (queue_of (heap s) lv)" "j \<noteq> p" for j
    using that by (simp add: h2 nth_upd)
  have tot: "l_total_quantity lv' = l_total_quantity lv - remaining (heap s ! p) + remaining (heap s2 ! p)"
    using pl by (simp add: lv'_def h2 nth_upd)
  have new: "level_ok (heap s2) sd (k, lv')"
    by (rule level_ok_adjust(1)[OF ok pin' len links rem _ _ _ tot]) (simp_all add: lv'_def)
  have qn: "queue_of (heap s2) lv' = queue_of (heap s) lv"
    by (rule level_ok_adjust(2)[OF ok pin' len links rem _ _ _ tot]) (simp_all add: lv'_def)
  have l2: "levels sd s2 = set_level k lv' (levels sd s)" by (simp add: s2_def)
  have l2o: "levels (opp sd) s2 = levels (opp sd) s" by (simp add: s2_def s1_def opp_def)
  have X0: "({} :: nat set) \<inter> qset s = {}" by simp
  have "lv_inv (heap s2) sd' (levels sd' s2)" for sd'
    by (rule LV_level_op(1)[OF LVs mem len frame X0 l2 l2o new])
  then have LV2: "LV s2" by (simp add: LV_def)
  have "qset s2 = (qset s - set (queue_of (heap s) lv)) \<union> set (queue_of (heap s2) lv')"
    by (rule LV_level_op(2)[OF LVs mem len frame X0 l2 l2o new])
  then have qs: "qset s2 = qset s" unfolding qn using queue_subset_qset[OF mem] by auto
  have o2: "orders s2 = orders s" by (simp add: s2_def s1_def)
  have io2: "idx_ok (heap s2) (orders s2) (qset s2)"
    unfolding qs o2 by (rule idx_ok_frame[OF io]) (auto simp: h2 nth_upd)
  have po2: "pool_ok (length (heap s2)) (pool s2) (qset s2)"
    unfolding qs len using po pool_ok_cong[of "pool s2" "pool s"] by (simp add: s2_def s1_def)
  have c2: "core_inv s2" using LV2 io2 po2 by (simp add: core_inv_LV)
  have n2: "nonempty_levels s2"
    unfolding nonempty_levels_iff
  proof (intro allI impI)
    fix sd' j assume j: "j < length (levels sd' s2)"
    show "\<not> level_empty (snd (levels sd' s2 ! j))"
    proof (cases "sd' = sd")
      case True
      with j have j': "j < length (levels sd s)" by (simp add: l2 set_level_def)
      from ne j' have "\<not> level_empty (snd (levels sd s ! j))" by (simp add: nonempty_levels_iff)
      moreover have "\<not> level_empty lv" using ne i by (simp add: nonempty_levels_iff lv_def)
      ultimately show ?thesis
        unfolding True l2 using j' by (simp add: set_level_nth level_empty_def lv'_def)
    next
      case False
      then have "sd' = opp sd" by (cases sd'; cases sd) (simp_all add: opp_def)
      with j ne show ?thesis by (simp add: l2o nonempty_levels_iff)
    qed
  qed
  have qf: "queue_of ((heap s)[p := (heap s ! p)\<lparr>o_quantity := nq\<rparr>]) (snd e) = queue_of (heap s) (snd e)"
    if "e \<in> set (levels sd' s)" for sd' e
  proof -
    have "lv_inv (heap s) sd' (levels sd' s)" by (rule LV_side[OF LVs])
    then have okk: "level_ok (heap s) sd' e" using that by (rule lv_inv_level_ok)
    from level_ok_valid[OF this] have "valid_queue (heap s) (snd e) (queue_of (heap s) (snd e))" .
    then have "valid_queue ((heap s)[p := (heap s ! p)\<lparr>o_quantity := nq\<rparr>]) (snd e) (queue_of (heap s) (snd e))"
      unfolding valid_queue_def by (auto intro: dseg_frame simp: nth_upd)
    then show ?thesis by (rule valid_queue_unique)
  qed
  show ?thesis
    using ml' pin' md c2 n2 qf
    unfolding sd_def[symmetric] k_def[symmetric] s2_def s1_def lv'_def book_inv_def
    by (intro exI[of _ lv]) simp
qed






section \<open>The trades of a submission\<close>

lemma add_order_trades:
  assumes inv: "book_inv s" and ad: "add_order sd ty pr qty s = Some (Inr r, s')"
    and tr: "tr \<in> set (r_trades r)"
  shows "\<exists>p\<in>qset s. o_side (heap s ! p) = opp sd \<and> t_price tr = o_price (heap s ! p)
           \<and> passive_id sd tr = o_id (heap s ! p) \<and> aggressive_id sd tr = r_order_id r"
proof -
  have fc: "pool_free_count (pool s) \<noteq> 0"
  proof
    assume "pool_free_count (pool s) = 0"
    then have "add_order sd ty pr qty s = Some (Inl PoolExhausted, s)"
      by (simp add: add_order_def allocate_def)
    with ad show False by simp
  qed
  from add_order_begin[OF inv fc, of sd ty pr qty] obtain a pl where
    an: "a < length (heap s)" and aq: "a \<notin> qset s"
    and cB: "cinv {a} (fst (begin_order a sd ty pr qty (s\<lparr>pool := pl\<rparr>)))"
    and nB: "nonempty_levels (fst (begin_order a sd ty pr qty (s\<lparr>pool := pl\<rparr>)))"
    and qB: "qset (fst (begin_order a sd ty pr qty (s\<lparr>pool := pl\<rparr>))) = qset s"
    and hB: "heap (fst (begin_order a sd ty pr qty (s\<lparr>pool := pl\<rparr>)))
                = (heap s)[a := \<lparr>o_id = next_id s + 1, o_price = pr, o_quantity = qty,
                      o_filled_quantity = 0, o_side = sd, o_type = ty, o_status = Active,
                      o_prev = None, o_next = None, o_timestamp = timestamp_counter s + 1\<rparr>]"
    and rB: "snd (begin_order a sd ty pr qty (s\<lparr>pool := pl\<rparr>))
                = order_result_init\<lparr>r_order_id := next_id s + 1\<rparr>"
    and fin: "\<forall>smr. match_order a (begin_order a sd ty pr qty (s\<lparr>pool := pl\<rparr>)) = Some smr \<longrightarrow>
                 add_order sd ty pr qty s
                   = Some (Inr (fst (finish_order ty a smr)), snd (finish_order ty a smr))"
    by blast
  define B where "B = fst (begin_order a sd ty pr qty (s\<lparr>pool := pl\<rparr>))"
  define rb where "rb = snd (begin_order a sd ty pr qty (s\<lparr>pool := pl\<rparr>))"
  have Bp: "begin_order a sd ty pr qty (s\<lparr>pool := pl\<rparr>) = (B, rb)" by (simp add: B_def rb_def)
  have ha: "o_side (heap B ! a) = sd" "o_id (heap B ! a) = next_id s + 1"
    using an by (simp_all add: B_def hB)
  have hq: "heap B ! p = heap s ! p" if "p \<in> qset s" for p
    using that aq by (auto simp: B_def hB nth_upd)
  define P where "P = (\<lambda>tr. \<exists>p\<in>qset s. o_side (heap s ! p) = opp sd \<and> t_price tr = o_price (heap s ! p)
           \<and> passive_id sd tr = o_id (heap s ! p) \<and> aggressive_id sd tr = next_id s + 1)"
  define J where "J = (\<lambda>(tu :: book \<times> order_result).
      qset (fst tu) \<subseteq> qset s \<and> (\<forall>tr\<in>set (r_trades (snd tu)). P tr)
      \<and> r_order_id (snd tu) = next_id s + 1)"
  have J0: "J (B, rb)"
    by (simp add: J_def B_def rb_def qB rB order_result_init_def)
  have step: "J (match_step sd' i a p (t, u))"
    if mi: "match_inv sd' i a t" and fr: "mframe B t" and so: "sd' = opp (o_side (heap B ! a))"
      and hd: "l_head (level_at sd' i t) = Some p" and J: "J (t, u)"
    for sd' i p t u
  proof -
    note e = match_step_effect(1-6)[OF mi hd]
    note g = match_step_effect(7-13)[OF mi hd, where r = u]
    from J have qs: "qset t \<subseteq> qset s" and tr: "\<forall>tr\<in>set (r_trades u). P tr"
      and ri: "r_order_id u = next_id s + 1" by (simp_all add: J_def)
    from e(1) qs have ps: "p \<in> qset s" by auto
    have fp: "o_side (heap t ! p) = o_side (heap s ! p)" "o_price (heap t ! p) = o_price (heap s ! p)"
      "o_id (heap t ! p) = o_id (heap s ! p)"
      using fr hq[OF ps] by (simp_all add: mframe_def)
    have fa: "o_side (heap t ! a) = sd" "o_id (heap t ! a) = next_id s + 1"
      using fr ha by (simp_all add: mframe_def)
    have sp: "o_side (heap s ! p) = opp sd" using e(4) fp(1) so ha(1) by simp
    have "P \<lparr>t_buy_order_id = (if o_side (heap t ! a) = Buy then o_id (heap t ! a) else o_id (heap t ! p)),
             t_sell_order_id = (if o_side (heap t ! a) = Buy then o_id (heap t ! p) else o_id (heap t ! a)),
             t_price = o_price (heap t ! p),
             t_quantity = min (remaining (heap t ! a)) (remaining (heap t ! p)),
             t_timestamp = timestamp_counter t\<rparr>"
      unfolding P_def using ps sp fp fa
      by (intro bexI[of _ p]) (auto simp: passive_id_def aggressive_id_def)
    moreover have "qset (fst (match_step sd' i a p (t, u))) \<subseteq> qset s"
      using g(1) qs by (auto split: if_splits)
    ultimately show ?thesis using tr ri unfolding J_def g(7) by auto
  qed
  have erase: "J (set_levels sd' (erase_at i (levels sd' t)) t, u)"
    if mi: "match_inv sd' i a t" and em: "level_empty (level_at sd' i t)" and J: "J (t, u)"
    for sd' i t u
    using J erase_level_inv(3)[OF mi em] by (simp add: J_def)
  from match_order_gen[of a B J rb, OF cB[folded B_def] nB[folded B_def] J0 step erase]
  obtain sm rm where m: "match_order a (B, rb) = Some (sm, rm)" and Jm: "J (sm, rm)"
    by blast
  from fin m Bp ad have res: "r = fst (finish_order ty a (sm, rm))" by simp
  have "r_trades r = r_trades rm" "r_order_id r = r_order_id rm"
    unfolding res by (simp_all add: finish_order_def Let_def)
  with Jm tr have "P tr" "r_order_id r = next_id s + 1" by (simp_all add: J_def)
  then show ?thesis unfolding P_def by auto
qed

section \<open>Claims\<close>

text \<open>
  C4. When the pool has no free slot, \<open>add_order\<close> fails with \<open>PoolExhausted\<close> and the
  book the caller is left with is the book before the call: side maps, order index,
  pool, both counters, trade count and total volume.
\<close>

theorem add_order_pool_exhausted:
  "pool_free_count (pool s) = 0 \<Longrightarrow> add_order sd ty pr qty s = Some (Inl PoolExhausted, s)"
  by (simp add: add_order_def allocate_def)

theorem add_order_pool_exhausted_witness:
  "pool_free_count (pool full_book) = 0
   \<and> add_order Buy Limit 10000 3 full_book = Some (Inl PoolExhausted, full_book)"
proof -
  have h: "pool_free_count (pool full_book) = 0" by (simp add: full_book_def)
  show ?thesis using h add_order_pool_exhausted[OF h] by simp
qed



text \<open>
  C10. At a price with no level on the given side, \<open>volume_at_price\<close> and
  \<open>order_count_at_price\<close> return 0. Both are \<open>const\<close> member functions: they are
  functions of the book that return a value and no new book.
\<close>

theorem query_absent_level:
  "map_of (levels sd s) pr = None \<Longrightarrow>
     volume_at_price s sd pr = 0 \<and> order_count_at_price s sd pr = 0"
  by (simp add: volume_at_price_def order_count_at_price_def)

theorem query_absent_level_witness:
  "map_of (levels Buy full_book) 10000 = None
   \<and> volume_at_price full_book Buy 10000 = 0 \<and> order_count_at_price full_book Buy 10000 = 0"
proof -
  have h: "map_of (levels Buy full_book) 10000 = None" by (simp add: full_book_def levels_def)
  show ?thesis using h query_absent_level[OF h] by simp
qed

text \<open>
  C1. A submission with quantity 0 is not rested. \<open>is_filled\<close> compares
  \<open>filled_quantity >= quantity\<close>, which holds at 0 and 0, so \<open>add_order\<close> takes its first
  branch: the result has status \<open>Filled\<close> with filled 0, remaining 0 and no trades, the
  record goes back to the pool, and neither the order index nor a side map receives the
  order.
\<close>

theorem zero_quantity_not_rested:
  assumes "book_inv s" and "pool_free_count (pool s) \<noteq> 0"
  shows "\<exists>s'. add_order sd Limit pr 0 s
             = Some (Inr \<lparr>r_order_id = next_id s + 1, r_status = Filled, r_filled_quantity = 0,
                         r_remaining_quantity = 0, r_trades = []\<rparr>, s')
           \<and> orders s' = orders s \<and> bids s' = bids s \<and> asks s' = asks s
           \<and> pool_free_count (pool s') = pool_free_count (pool s)"
  using assms by (rule add_order_zero_quantity)

theorem zero_quantity_not_rested_witness:
  "book_inv (order_book_init 2) \<and> pool_free_count (pool (order_book_init 2)) \<noteq> 0
   \<and> (\<exists>s'. add_order Sell Limit 10000 0 (order_book_init 2)
             = Some (Inr \<lparr>r_order_id = 1, r_status = Filled, r_filled_quantity = 0,
                         r_remaining_quantity = 0, r_trades = []\<rparr>, s')
           \<and> orders s' = [] \<and> bids s' = [] \<and> asks s' = [] \<and> pool_free_count (pool s') = 2)"
proof -
  have h: "book_inv (order_book_init 2)" "pool_free_count (pool (order_book_init 2)) \<noteq> 0"
    by code_simp+
  from zero_quantity_not_rested[OF h, of Sell 10000] h show ?thesis
    by (simp add: order_book_init_def order_pool_init_def)
qed

text \<open>
  C2, as stated, fails for a sell. The loops stop at a level whose price is beyond the
  limit: \<open>it->first > order->price\<close> for a buy, \<open>it->first < order->price\<close> for a sell.
  No unsigned bid price is below 0, so a sell at price 0 matches every bid: here it
  trades 4 with the resting bid at 9900.
\<close>

theorem zero_price_sell_crosses:
  "map_option fst (add_order Sell Limit 0 4 resting_book)
     = Some (Inr \<lparr>r_order_id = 3, r_status = Filled, r_filled_quantity = 4,
                 r_remaining_quantity = 0,
                 r_trades = [\<lparr>t_buy_order_id = 2, t_sell_order_id = 3, t_price = 9900,
                              t_quantity = 4, t_timestamp = 3\<rparr>]\<rparr>)"
  by code_simp

text \<open>
  C2. A limit order at price 0 with a positive quantity produces no trades and rests as
  \<open>Active\<close> with filled 0, in the index and in a queue, when it does not cross: a buy
  into a book with no ask at price 0, a sell into a book with no bids.
\<close>

theorem zero_price_limit_rests:
  assumes "book_inv s" and "pool_free_count (pool s) \<noteq> 0" and "qty \<noteq> 0"
    and "sd = Buy \<longrightarrow> asks s = [] \<or> 0 < fst (hd (asks s))"
    and "sd = Sell \<longrightarrow> bids s = []"
  shows "\<exists>s' p. add_order sd Limit 0 qty s
             = Some (Inr \<lparr>r_order_id = next_id s + 1, r_status = Active, r_filled_quantity = 0,
                         r_remaining_quantity = qty, r_trades = []\<rparr>, s')
           \<and> map_of (orders s') (next_id s + 1) = Some p \<and> p \<in> set (queued s')"
proof -
  have "\<not> crosses sd 0 s"
    using assms(4,5) by (cases sd) (auto simp: crosses_def not_le)
  from add_order_rests[OF assms(1,2,3) this] show ?thesis
    unfolding qset_queued by blast
qed

theorem zero_price_limit_rests_witness:
  "book_inv resting_book \<and> pool_free_count (pool resting_book) \<noteq> 0 \<and> (4 :: quantity) \<noteq> 0
   \<and> (asks resting_book = [] \<or> 0 < fst (hd (asks resting_book)))
   \<and> (\<exists>s' p. add_order Buy Limit 0 4 resting_book
             = Some (Inr \<lparr>r_order_id = 3, r_status = Active, r_filled_quantity = 0,
                         r_remaining_quantity = 4, r_trades = []\<rparr>, s')
           \<and> map_of (orders s') 3 = Some p \<and> p \<in> set (queued s'))
   \<and> book_inv (order_book_init 2) \<and> pool_free_count (pool (order_book_init 2)) \<noteq> 0
   \<and> bids (order_book_init 2) = []
   \<and> (\<exists>s' p. add_order Sell Limit 0 4 (order_book_init 2)
             = Some (Inr \<lparr>r_order_id = 1, r_status = Active, r_filled_quantity = 0,
                         r_remaining_quantity = 4, r_trades = []\<rparr>, s')
           \<and> map_of (orders s') 1 = Some p \<and> p \<in> set (queued s'))"
proof -
  have h: "book_inv resting_book" "pool_free_count (pool resting_book) \<noteq> 0"
    "(4 :: quantity) \<noteq> 0"
    by code_simp+
  have a: "asks resting_book = [] \<or> 0 < fst (hd (asks resting_book))"
    by (simp add: resting_book_def)
  have g: "book_inv (order_book_init 2)" "pool_free_count (pool (order_book_init 2)) \<noteq> 0"
    by code_simp+
  have b: "bids (order_book_init 2) = []" by (simp add: order_book_init_def)
  from zero_price_limit_rests[OF h, of Buy] a
  have 1: "\<exists>s' p. add_order Buy Limit 0 4 resting_book
             = Some (Inr \<lparr>r_order_id = 3, r_status = Active, r_filled_quantity = 0,
                         r_remaining_quantity = 4, r_trades = []\<rparr>, s')
           \<and> map_of (orders s') 3 = Some p \<and> p \<in> set (queued s')"
    by (simp add: resting_book_def)
  from zero_price_limit_rests[OF g h(3), of Sell] b
  have 2: "\<exists>s' p. add_order Sell Limit 0 4 (order_book_init 2)
             = Some (Inr \<lparr>r_order_id = 1, r_status = Active, r_filled_quantity = 0,
                         r_remaining_quantity = 4, r_trades = []\<rparr>, s')
           \<and> map_of (orders s') 1 = Some p \<and> p \<in> set (queued s')"
    by (simp add: order_book_init_def)
  show ?thesis using h a g b 1 2 by blast
qed



text \<open>
  C8. Reducing a resting order: for a resting order with
  \<open>filled_quantity < new_quantity < quantity\<close>, \<open>modify_order\<close> returns true; the pool's
  records are the old ones except that the order's \<open>quantity\<close> is \<open>new_quantity\<close>, so
  the order keeps its id, timestamp, filled quantity and links; its level's
  \<open>total_quantity\<close> goes down by the reduction in remaining and nothing else of the
  level changes; every queue is the same list as before, so the order keeps its place;
  the other side, the order index, the free stack and the counts of the pool, and all four
  counters are as before.
\<close>

theorem modify_reduce_frame:
  assumes "book_inv s" and "map_of (orders s) oid = Some p"
    and "o_filled_quantity (order_at s p) < nq" and "nq < o_quantity (order_at s p)"
  shows "\<exists>s' lv.
           modify_order oid nq s = Some (Inr True, s')
         \<and> map_of (levels (o_side (order_at s p)) s) (o_price (order_at s p)) = Some lv
         \<and> pool_orders (pool s') = (pool_orders (pool s))[p := (order_at s p)\<lparr>o_quantity := nq\<rparr>]
         \<and> levels (o_side (order_at s p)) s'
             = AList.update (o_price (order_at s p))
                 (lv\<lparr>l_total_quantity := l_total_quantity lv
                        - (remaining (order_at s p) - remaining (order_at s' p))\<rparr>)
                 (levels (o_side (order_at s p)) s)
         \<and> levels (opp (o_side (order_at s p))) s' = levels (opp (o_side (order_at s p))) s
         \<and> (\<forall>sd e. e \<in> set (levels sd s) \<longrightarrow>
               queue_of (pool_orders (pool s')) (snd e) = queue_of (pool_orders (pool s)) (snd e))
         \<and> orders s' = orders s
         \<and> pool_free_stack (pool s') = pool_free_stack (pool s)
         \<and> pool_free_count (pool s') = pool_free_count (pool s)
         \<and> pool_size (pool s') = pool_size (pool s)
         \<and> pool_capacity (pool s') = pool_capacity (pool s)
         \<and> next_id s' = next_id s \<and> timestamp_counter s' = timestamp_counter s
         \<and> trade_count s' = trade_count s \<and> total_volume s' = total_volume s
         \<and> book_inv s'"
proof -
  from assms(3,4) have lo: "o_filled_quantity (heap s ! p) < nq" and hi: "nq < o_quantity (heap s ! p)"
    by simp_all
  define sd where "sd = o_side (heap s ! p)"
  define k where "k = o_price (heap s ! p)"
  from modify_order_reduce[OF assms(1,2) lo hi, folded sd_def k_def] obtain lv where
    ml: "map_of (levels sd s) k = Some lv" and pin: "p \<in> set (queue_of (heap s) lv)"
    and md: "modify_order oid nq s = Some (Inr True,
               set_levels sd (set_level k
                 (lv\<lparr>l_total_quantity := l_total_quantity lv
                      - (remaining (heap s ! p) - remaining ((heap s ! p)\<lparr>o_quantity := nq\<rparr>))\<rparr>)
                 (levels sd s)) (upd_order p (\<lambda>ord. ord\<lparr>o_quantity := nq\<rparr>) s))"
    and bi: "book_inv (set_levels sd (set_level k
                 (lv\<lparr>l_total_quantity := l_total_quantity lv
                      - (remaining (heap s ! p) - remaining ((heap s ! p)\<lparr>o_quantity := nq\<rparr>))\<rparr>)
                 (levels sd s)) (upd_order p (\<lambda>ord. ord\<lparr>o_quantity := nq\<rparr>) s))"
    and qf: "\<forall>sd' e. e \<in> set (levels sd' s) \<longrightarrow>
                 queue_of ((heap s)[p := (heap s ! p)\<lparr>o_quantity := nq\<rparr>]) (snd e)
                   = queue_of (heap s) (snd e)"
    by blast
  define lv' where "lv' = lv\<lparr>l_total_quantity := l_total_quantity lv
                      - (remaining (heap s ! p) - remaining ((heap s ! p)\<lparr>o_quantity := nq\<rparr>))\<rparr>"
  define s' where "s' = set_levels sd (set_level k lv' (levels sd s))
                          (upd_order p (\<lambda>ord. ord\<lparr>o_quantity := nq\<rparr>) s)"
  from assms(1) have LVs: "LV s" by (simp add: book_inv_def core_inv_LV)
  have mem: "(k, lv) \<in> set (levels sd s)" using ml by (rule map_of_SomeD)
  have pl: "p < length (heap s)"
    using qset_bound[OF LVs] queue_subset_qset[OF mem] pin by auto
  have up: "AList.update k lv' (levels sd s) = set_level k lv' (levels sd s)"
    by (rule update_set_level[OF LV_distinct_keys[OF LVs] ml])
  have h': "heap s' = (heap s)[p := (heap s ! p)\<lparr>o_quantity := nq\<rparr>]" by (simp add: s'_def)
  have hp: "heap s' ! p = (heap s ! p)\<lparr>o_quantity := nq\<rparr>" using pl by (simp add: h')
  have 1: "modify_order oid nq s = Some (Inr True, s')" using md by (simp add: s'_def lv'_def)
  have 2: "levels sd s' = AList.update k
             (lv\<lparr>l_total_quantity := l_total_quantity lv - (remaining (heap s ! p) - remaining (heap s' ! p))\<rparr>)
             (levels sd s)"
    unfolding hp using up by (simp add: s'_def lv'_def)
  have 3: "levels (opp sd) s' = levels (opp sd) s" by (simp add: s'_def opp_def)
  have 4: "orders s' = orders s" "pool_free_stack (pool s') = pool_free_stack (pool s)"
    "pool_free_count (pool s') = pool_free_count (pool s)"
    "pool_size (pool s') = pool_size (pool s)" "pool_capacity (pool s') = pool_capacity (pool s)"
    "next_id s' = next_id s" "timestamp_counter s' = timestamp_counter s"
    "trade_count s' = trade_count s" "total_volume s' = total_volume s"
    by (simp_all add: s'_def)
  have 5: "book_inv s'" using bi by (simp add: s'_def lv'_def)
  have 6: "\<forall>sd e. e \<in> set (levels sd s) \<longrightarrow> queue_of (heap s') (snd e) = queue_of (heap s) (snd e)"
    using qf by (simp add: h')
  show ?thesis
    unfolding heap_order_at sd_def[symmetric] k_def[symmetric] heap_def[symmetric]
    using 1 ml h' 2 3 4 5 6 by (intro exI[of _ s'] exI[of _ lv]) simp
qed

theorem modify_reduce_frame_witness:
  "book_inv resting_book \<and> map_of (orders resting_book) 2 = Some 1
   \<and> o_filled_quantity (order_at resting_book 1) < 4 \<and> 4 < o_quantity (order_at resting_book 1)
   \<and> (\<exists>s'. modify_order 2 4 resting_book = Some (Inr True, s')
         \<and> pool_orders (pool s')
             = (pool_orders (pool resting_book))[1 := (order_at resting_book 1)\<lparr>o_quantity := 4\<rparr>]
         \<and> bids s' = [(9900, \<lparr>l_price = 9900, l_total_quantity = 4, l_order_count = 1,
                                 l_head = Some 1, l_tail = Some 1\<rparr>)]
         \<and> asks s' = asks resting_book \<and> orders s' = orders resting_book
         \<and> next_id s' = 2 \<and> timestamp_counter s' = 2)"
proof -
  have h: "book_inv resting_book" "map_of (orders resting_book) 2 = Some 1"
    "o_filled_quantity (order_at resting_book 1) < 4" "4 < o_quantity (order_at resting_book 1)"
    by code_simp+
  have e: "o_side (order_at resting_book 1) = Buy" "o_price (order_at resting_book 1) = 9900"
    "remaining (order_at resting_book 1) = 7" "levels Buy resting_book = bids resting_book"
    "levels (opp Buy) resting_book = asks resting_book"
    "bids resting_book = [(9900, \<lparr>l_price = 9900, l_total_quantity = 7, l_order_count = 1,
                                 l_head = Some 1, l_tail = Some 1\<rparr>)]"
    "next_id resting_book = 2" "timestamp_counter resting_book = 2"
    by (simp_all add: resting_book_def heap_def remaining_def levels_def opp_def)
  from modify_reduce_frame[OF h] obtain s' lv where
    m: "modify_order 2 4 resting_book = Some (Inr True, s')"
    and lv: "map_of (levels (o_side (order_at resting_book 1)) resting_book)
               (o_price (order_at resting_book 1)) = Some lv"
    and po: "pool_orders (pool s')
               = (pool_orders (pool resting_book))[1 := (order_at resting_book 1)\<lparr>o_quantity := 4\<rparr>]"
    and l1: "levels (o_side (order_at resting_book 1)) s'
             = AList.update (o_price (order_at resting_book 1))
                 (lv\<lparr>l_total_quantity := l_total_quantity lv
                        - (remaining (order_at resting_book 1) - remaining (order_at s' 1))\<rparr>)
                 (levels (o_side (order_at resting_book 1)) resting_book)"
    and l2: "levels (opp (o_side (order_at resting_book 1))) s'
               = levels (opp (o_side (order_at resting_book 1))) resting_book"
    and o: "orders s' = orders resting_book"
    and c: "next_id s' = next_id resting_book" "timestamp_counter s' = timestamp_counter resting_book"
    by blast
  have r': "remaining (order_at s' 1) = 4"
    using po by (simp add: heap_def resting_book_def remaining_def)
  from lv have lv': "lv = \<lparr>l_price = 9900, l_total_quantity = 7, l_order_count = 1,
                                 l_head = Some 1, l_tail = Some 1\<rparr>"
    unfolding e by simp
  have b: "bids s' = [(9900, \<lparr>l_price = 9900, l_total_quantity = 4, l_order_count = 1,
                                 l_head = Some 1, l_tail = Some 1\<rparr>)]"
    using l1 unfolding e r' lv' by (simp add: levels_def)
  have a: "asks s' = asks resting_book" using l2 unfolding e by (simp add: levels_def opp_def)
  show ?thesis using h m po b a o c e(7,8) by auto
qed

text \<open>
  C3. Every trade a submission produces carries the price of the resting order it was
  made against: the trade names, as its resting side, the id of an order that rested on
  the opposite side before the submission, and its price is that order's price; the
  other id is the submission's own. The submission's limit price does not enter: the
  buy at 10500 below trades at the resting ask's 10000.
\<close>

theorem trade_at_passive_price:
  assumes "book_inv s" and "add_order sd ty pr qty s = Some (Inr r, s')"
    and "tr \<in> set (r_trades r)"
  shows "\<exists>p\<in>set (queued s). o_side (order_at s p) = opp sd
           \<and> passive_id sd tr = o_id (order_at s p) \<and> aggressive_id sd tr = r_order_id r
           \<and> t_price tr = o_price (order_at s p)"
  using add_order_trades[OF assms] unfolding qset_queued by auto

theorem trade_at_passive_price_witness:
  "book_inv resting_book
   \<and> (\<exists>r s' tr. add_order Buy Limit 10500 3 resting_book = Some (Inr r, s')
         \<and> r_trades r = [tr] \<and> t_price tr = 10000 \<and> t_sell_order_id tr = 1
         \<and> t_buy_order_id tr = 3 \<and> r_order_id r = 3
         \<and> (\<exists>p\<in>set (queued resting_book). o_side (order_at resting_book p) = opp Buy
               \<and> passive_id Buy tr = o_id (order_at resting_book p)
               \<and> aggressive_id Buy tr = r_order_id r
               \<and> t_price tr = o_price (order_at resting_book p)))"
proof -
  have h: "book_inv resting_book" by code_simp
  have "case add_order Buy Limit 10500 3 resting_book of
          Some (Inr r, s') \<Rightarrow> r_trades r = [\<lparr>t_buy_order_id = 3, t_sell_order_id = 1, t_price = 10000,
                                             t_quantity = 3, t_timestamp = 3\<rparr>]
                               \<and> r_order_id r = 3
        | _ \<Rightarrow> False"
    by code_simp
  from submission_cases[OF this] obtain r s' where
    a: "add_order Buy Limit 10500 3 resting_book = Some (Inr r, s')"
    and t: "r_trades r = [\<lparr>t_buy_order_id = 3, t_sell_order_id = 1, t_price = 10000,
                           t_quantity = 3, t_timestamp = 3\<rparr>]"
    and i: "r_order_id r = 3"
    by blast
  from trade_at_passive_price[OF h a, of "\<lparr>t_buy_order_id = 3, t_sell_order_id = 1, t_price = 10000,
                           t_quantity = 3, t_timestamp = 3\<rparr>"] t
  have "\<exists>p\<in>set (queued resting_book). o_side (order_at resting_book p) = opp Buy
               \<and> passive_id Buy \<lparr>t_buy_order_id = 3, t_sell_order_id = 1, t_price = 10000,
                           t_quantity = 3, t_timestamp = 3\<rparr> = o_id (order_at resting_book p)
               \<and> aggressive_id Buy \<lparr>t_buy_order_id = 3, t_sell_order_id = 1, t_price = 10000,
                           t_quantity = 3, t_timestamp = 3\<rparr> = r_order_id r
               \<and> t_price \<lparr>t_buy_order_id = 3, t_sell_order_id = 1, t_price = 10000,
                           t_quantity = 3, t_timestamp = 3\<rparr> = o_price (order_at resting_book p)"
    by simp
  with h a t i show ?thesis
    by (intro conjI exI[of _ r] exI[of _ s']
          exI[of _ "\<lparr>t_buy_order_id = 3, t_sell_order_id = 1, t_price = 10000,
                           t_quantity = 3, t_timestamp = 3\<rparr>"]) simp_all
qed

end
